theory Spec2Isabelle
  imports Complex_Main "HOL-Library.Word"
begin

section \<open>Sample arithmetic and constants\<close>

text \<open>
  The resampler computes on C++ \<open>float\<close> and \<open>std::complex<float>\<close>. The embedding keeps
  the scalar type abstract: a type variable \<open>'a\<close> with the operations \<open>0\<close>, \<open>+\<close> and
  \<open>*\<close> that the code uses, so that no law of real arithmetic is assumed where the code
  rounds. A complex sample is the pair of its real and imaginary part. A decimal literal
  of the source (\<open>0.00031204f\<close>) is the image of the decimal under a conversion
  \<open>f32 :: real \<Rightarrow> 'a\<close>, a parameter of the constructor.
\<close>

type_synonym 'a complex_float = "'a \<times> 'a"

abbreviation S1_DECIMATION :: int where "S1_DECIMATION \<equiv> 5"
abbreviation S1_TAPS :: nat where "S1_TAPS \<equiv> 61"
abbreviation S2_INTERP :: int where "S2_INTERP \<equiv> 13"
abbreviation S2_DECIM :: int where "S2_DECIM \<equiv> 24"
abbreviation S2_TAPS_TOTAL :: nat where "S2_TAPS_TOTAL \<equiv> 729"
abbreviation S2_PHASES :: nat where "S2_PHASES \<equiv> 13"
abbreviation S2_TAPS_PER_PHASE :: nat where "S2_TAPS_PER_PHASE \<equiv> 57"

section \<open>Coefficient tables (dsp\_resampler.cc)\<close>

definition S1_COEFFS :: "(real \<Rightarrow> 'a) \<Rightarrow> 'a list" where
  "S1_COEFFS f32 = map f32 [
    -0.00031204, -0.00004545, 0.00027904, 0.00068462, 0.00117369, 0.00171261, 0.00222291, 0.00258239, 0.00263792, 0.00222986,
    0.00122527, -0.00044472, -0.00274968, -0.00553362, -0.00850401, -0.01124041, -0.01322480, -0.01389213, -0.01269630, -0.00918414,
    -0.00306760, 0.00571594, 0.01696486, 0.03020315, 0.04470262, 0.05953716, 0.07366408, 0.08602410, 0.09564828, 0.10175928,
    0.10385425, 0.10175928, 0.09564828, 0.08602410, 0.07366408, 0.05953716, 0.04470262, 0.03020315, 0.01696486, 0.00571594,
    -0.00306760, -0.00918414, -0.01269630, -0.01389213, -0.01322480, -0.01124041, -0.00850401, -0.00553362, -0.00274968, -0.00044472,
    0.00122527, 0.00222986, 0.00263792, 0.00258239, 0.00222291, 0.00171261, 0.00117369, 0.00068462, 0.00027904, -0.00004545,
    -0.00031204]"

definition S2_COEFFS_RAW :: "(real \<Rightarrow> 'a) \<Rightarrow> 'a list" where
  "S2_COEFFS_RAW f32 = map f32 [
    0.00006223, 0.00008348, 0.00010558, 0.00012822, 0.00015103, 0.00017364, 0.00019563, 0.00021657, 0.00023602, 0.00025352,
    0.00026862, 0.00028088, 0.00028987, 0.00029518, 0.00029645, 0.00029335, 0.00028560, 0.00027297, 0.00025530, 0.00023250,
    0.00020457, 0.00017156, 0.00013363, 0.00009102, 0.00004406, -0.00000685, -0.00006118, -0.00011837, -0.00017773, -0.00023854,
    -0.00029997, -0.00036117, -0.00042123, -0.00047919, -0.00053408, -0.00058492, -0.00063073, -0.00067054, -0.00070345, -0.00072856,
    -0.00074507, -0.00075225, -0.00074948, -0.00073624, -0.00071213, -0.00067689, -0.00063041, -0.00057275, -0.00050410, -0.00042486,
    -0.00033556, -0.00023693, -0.00012986, -0.00001541, 0.00010521, 0.00023065, 0.00035940, 0.00048986, 0.00062030, 0.00074893,
    0.00087389, 0.00099328, 0.00110520, 0.00120776, 0.00129911, 0.00137746, 0.00144115, 0.00148862, 0.00151848, 0.00152951,
    0.00152070, 0.00149128, 0.00144071, 0.00136874, 0.00127538, 0.00116095, 0.00102608, 0.00087168, 0.00069899, 0.00050954,
    0.00030517, 0.00008797, -0.00013967, -0.00037515, -0.00061564, -0.00085814, -0.00109948, -0.00133640, -0.00156555, -0.00178356,
    -0.00198708, -0.00217281, -0.00233757, -0.00247834, -0.00259230, -0.00267687, -0.00272980, -0.00274914, -0.00273333, -0.00268124,
    -0.00259216, -0.00246584, -0.00230256, -0.00210307, -0.00186864, -0.00160106, -0.00130261, -0.00097608, -0.00062475, -0.00025231,
    0.00013710, 0.00053898, 0.00094851, 0.00136058, 0.00176987, 0.00217094, 0.00255821, 0.00292613, 0.00326921, 0.00358207,
    0.00385958, 0.00409687, 0.00428946, 0.00443327, 0.00452477, 0.00456097, 0.00453952, 0.00445874, 0.00431768, 0.00411615,
    0.00385475, 0.00353489, 0.00315879, 0.00272948, 0.00225079, 0.00172731, 0.00116439, 0.00056804, -0.00005507, -0.00069772,
    -0.00135221, -0.00201043, -0.00266396, -0.00330420, -0.00392241, -0.00450990, -0.00505810, -0.00555867, -0.00600365, -0.00638554,
    -0.00669745, -0.00693318, -0.00708733, -0.00715538, -0.00713383, -0.00702020, -0.00681315, -0.00651250, -0.00611931, -0.00563584,
    -0.00506559, -0.00441331, -0.00368495, -0.00288760, -0.00202948, -0.00111983, -0.00016881, 0.00081255, 0.00181253, 0.00281883,
    0.00381869, 0.00479909, 0.00574686, 0.00664889, 0.00749226, 0.00826447, 0.00895353, 0.00954824, 0.01003823, 0.01041425,
    0.01066821, 0.01079337, 0.01078447, 0.01063781, 0.01035138, 0.00992489, 0.00935985, 0.00865958, 0.00782926, 0.00687585,
    0.00580809, 0.00463646, 0.00337303, 0.00203138, 0.00062649, -0.00082545, -0.00230721, -0.00380069, -0.00528715, -0.00674743,
    -0.00816217, -0.00951208, -0.01077816, -0.01194198, -0.01298589, -0.01389331, -0.01464896, -0.01523907, -0.01565160, -0.01587648,
    -0.01590574, -0.01573368, -0.01535704, -0.01477506, -0.01398957, -0.01300505, -0.01182863, -0.01047007, -0.00894172, -0.00725840,
    -0.00543732, -0.00349788, -0.00146152, 0.00064853, 0.00280748, 0.00498923, 0.00716673, 0.00931224, 0.01139769, 0.01339500,
    0.01527647, 0.01701514, 0.01858509, 0.01996189, 0.02112285, 0.02204744, 0.02271754, 0.02311775, 0.02323569, 0.02306220,
    0.02259153, 0.02182153, 0.02075379, 0.01939366, 0.01775034, 0.01583683, 0.01366988, 0.01126989, 0.00866075, 0.00586962,
    0.00292669, -0.00013512, -0.00328049, -0.00647209, -0.00967096, -0.01283700, -0.01592941, -0.01890715, -0.02172949, -0.02435652,
    -0.02674963, -0.02887205, -0.03068936, -0.03216995, -0.03328555, -0.03401158, -0.03432764, -0.03421783, -0.03367109, -0.03268145,
    -0.03124827, -0.02937639, -0.02707622, -0.02436378, -0.02126065, -0.01779388, -0.01399582, -0.00990387, -0.00556016, -0.00101120,
    0.00369256, 0.00849721, 0.01334598, 0.01817979, 0.02293788, 0.02755853, 0.03197977, 0.03614006, 0.03997908, 0.04343847,
    0.04646260, 0.04899927, 0.05100048, 0.05242308, 0.05322946, 0.05338817, 0.05287443, 0.05167070, 0.04976706, 0.04716159,
    0.04386067, 0.03987915, 0.03524046, 0.02997665, 0.02412829, 0.01774434, 0.01088181, 0.00360548, -0.00401259, -0.01189360,
    -0.01995265, -0.02809939, -0.03623888, -0.04427239, -0.05209830, -0.05961309, -0.06671236, -0.07329178, -0.07924826, -0.08448092,
    -0.08889222, -0.09238899, -0.09488349, -0.09629439, -0.09654773, -0.09557785, -0.09332819, -0.08975211, -0.08481352, -0.07848750,
    -0.07076078, -0.06163212, -0.05111262, -0.03922583, -0.02600783, -0.01150713, 0.00421551, 0.02108744, 0.03902451, 0.05793165,
    0.07770356, 0.09822543, 0.11937385, 0.14101777, 0.16301956, 0.18523608, 0.20751995, 0.22972070, 0.25168610, 0.27326347,
    0.29430098, 0.31464897, 0.33416129, 0.35269658, 0.37011953, 0.38630207, 0.40112455, 0.41447680, 0.42625912, 0.43638319,
    0.44477288, 0.45136492, 0.45610949, 0.45897070, 0.45992685, 0.45897070, 0.45610949, 0.45136492, 0.44477288, 0.43638319,
    0.42625912, 0.41447680, 0.40112455, 0.38630207, 0.37011953, 0.35269658, 0.33416129, 0.31464897, 0.29430098, 0.27326347,
    0.25168610, 0.22972070, 0.20751995, 0.18523608, 0.16301956, 0.14101777, 0.11937385, 0.09822543, 0.07770356, 0.05793165,
    0.03902451, 0.02108744, 0.00421551, -0.01150713, -0.02600783, -0.03922583, -0.05111262, -0.06163212, -0.07076078, -0.07848750,
    -0.08481352, -0.08975211, -0.09332819, -0.09557785, -0.09654773, -0.09629439, -0.09488349, -0.09238899, -0.08889222, -0.08448092,
    -0.07924826, -0.07329178, -0.06671236, -0.05961309, -0.05209830, -0.04427239, -0.03623888, -0.02809939, -0.01995265, -0.01189360,
    -0.00401259, 0.00360548, 0.01088181, 0.01774434, 0.02412829, 0.02997665, 0.03524046, 0.03987915, 0.04386067, 0.04716159,
    0.04976706, 0.05167070, 0.05287443, 0.05338817, 0.05322946, 0.05242308, 0.05100048, 0.04899927, 0.04646260, 0.04343847,
    0.03997908, 0.03614006, 0.03197977, 0.02755853, 0.02293788, 0.01817979, 0.01334598, 0.00849721, 0.00369256, -0.00101120,
    -0.00556016, -0.00990387, -0.01399582, -0.01779388, -0.02126065, -0.02436378, -0.02707622, -0.02937639, -0.03124827, -0.03268145,
    -0.03367109, -0.03421783, -0.03432764, -0.03401158, -0.03328555, -0.03216995, -0.03068936, -0.02887205, -0.02674963, -0.02435652,
    -0.02172949, -0.01890715, -0.01592941, -0.01283700, -0.00967096, -0.00647209, -0.00328049, -0.00013512, 0.00292669, 0.00586962,
    0.00866075, 0.01126989, 0.01366988, 0.01583683, 0.01775034, 0.01939366, 0.02075379, 0.02182153, 0.02259153, 0.02306220,
    0.02323569, 0.02311775, 0.02271754, 0.02204744, 0.02112285, 0.01996189, 0.01858509, 0.01701514, 0.01527647, 0.01339500,
    0.01139769, 0.00931224, 0.00716673, 0.00498923, 0.00280748, 0.00064853, -0.00146152, -0.00349788, -0.00543732, -0.00725840,
    -0.00894172, -0.01047007, -0.01182863, -0.01300505, -0.01398957, -0.01477506, -0.01535704, -0.01573368, -0.01590574, -0.01587648,
    -0.01565160, -0.01523907, -0.01464896, -0.01389331, -0.01298589, -0.01194198, -0.01077816, -0.00951208, -0.00816217, -0.00674743,
    -0.00528715, -0.00380069, -0.00230721, -0.00082545, 0.00062649, 0.00203138, 0.00337303, 0.00463646, 0.00580809, 0.00687585,
    0.00782926, 0.00865958, 0.00935985, 0.00992489, 0.01035138, 0.01063781, 0.01078447, 0.01079337, 0.01066821, 0.01041425,
    0.01003823, 0.00954824, 0.00895353, 0.00826447, 0.00749226, 0.00664889, 0.00574686, 0.00479909, 0.00381869, 0.00281883,
    0.00181253, 0.00081255, -0.00016881, -0.00111983, -0.00202948, -0.00288760, -0.00368495, -0.00441331, -0.00506559, -0.00563584,
    -0.00611931, -0.00651250, -0.00681315, -0.00702020, -0.00713383, -0.00715538, -0.00708733, -0.00693318, -0.00669745, -0.00638554,
    -0.00600365, -0.00555867, -0.00505810, -0.00450990, -0.00392241, -0.00330420, -0.00266396, -0.00201043, -0.00135221, -0.00069772,
    -0.00005507, 0.00056804, 0.00116439, 0.00172731, 0.00225079, 0.00272948, 0.00315879, 0.00353489, 0.00385475, 0.00411615,
    0.00431768, 0.00445874, 0.00453952, 0.00456097, 0.00452477, 0.00443327, 0.00428946, 0.00409687, 0.00385958, 0.00358207,
    0.00326921, 0.00292613, 0.00255821, 0.00217094, 0.00176987, 0.00136058, 0.00094851, 0.00053898, 0.00013710, -0.00025231,
    -0.00062475, -0.00097608, -0.00130261, -0.00160106, -0.00186864, -0.00210307, -0.00230256, -0.00246584, -0.00259216, -0.00268124,
    -0.00273333, -0.00274914, -0.00272980, -0.00267687, -0.00259230, -0.00247834, -0.00233757, -0.00217281, -0.00198708, -0.00178356,
    -0.00156555, -0.00133640, -0.00109948, -0.00085814, -0.00061564, -0.00037515, -0.00013967, 0.00008797, 0.00030517, 0.00050954,
    0.00069899, 0.00087168, 0.00102608, 0.00116095, 0.00127538, 0.00136874, 0.00144071, 0.00149128, 0.00152070, 0.00152951,
    0.00151848, 0.00148862, 0.00144115, 0.00137746, 0.00129911, 0.00120776, 0.00110520, 0.00099328, 0.00087389, 0.00074893,
    0.00062030, 0.00048986, 0.00035940, 0.00023065, 0.00010521, -0.00001541, -0.00012986, -0.00023693, -0.00033556, -0.00042486,
    -0.00050410, -0.00057275, -0.00063041, -0.00067689, -0.00071213, -0.00073624, -0.00074948, -0.00075225, -0.00074507, -0.00072856,
    -0.00070345, -0.00067054, -0.00063073, -0.00058492, -0.00053408, -0.00047919, -0.00042123, -0.00036117, -0.00029997, -0.00023854,
    -0.00017773, -0.00011837, -0.00006118, -0.00000685, 0.00004406, 0.00009102, 0.00013363, 0.00017156, 0.00020457, 0.00023250,
    0.00025530, 0.00027297, 0.00028560, 0.00029335, 0.00029645, 0.00029518, 0.00028987, 0.00028088, 0.00026862, 0.00025352,
    0.00023602, 0.00021657, 0.00019563, 0.00017364, 0.00015103, 0.00012822, 0.00010558, 0.00008348, 0.00006223]"

section \<open>Resampler state (dsp\_resampler.h)\<close>

text \<open>
  The private members of \<open>class dsp_resampler\<close>. The counters are C \<open>int\<close>; they stay
  below 37 in every state the class can reach, so they are mathematical integers here.
  The arrays are lists; \<open>array_shapes\<close> records the sizes their C++ types fix.
\<close>

record 'a dsp_resampler =
  s1_index :: int
  s1_history :: "'a complex_float list"
  s1_coeffs_rev :: "'a list"
  s1_head :: int
  s2_coeffs_poly :: "'a list list"
  s2_history :: "'a complex_float list"
  s2_head :: int
  s2_phase_state :: int

definition array_shapes :: "'a dsp_resampler \<Rightarrow> bool" where
  "array_shapes st \<longleftrightarrow>
     length (s1_history st) = 2 * S1_TAPS \<and>
     length (s1_coeffs_rev st) = S1_TAPS \<and>
     length (s2_coeffs_poly st) = S2_PHASES \<and>
     list_all (\<lambda>branch. length branch = S2_TAPS_PER_PHASE) (s2_coeffs_poly st) \<and>
     length (s2_history st) = 2 * S2_TAPS_PER_PHASE"

section \<open>Construction and reset\<close>

definition reset :: "'a::zero dsp_resampler \<Rightarrow> 'a dsp_resampler" where
  "reset st = st\<lparr>
     s1_index := 0,
     s1_head := 0,
     s1_history := replicate (2 * S1_TAPS) (0, 0),
     s2_head := 0,
     s2_phase_state := 0,
     s2_history := replicate (2 * S2_TAPS_PER_PHASE) (0, 0)\<rparr>"

text \<open>
  The constructor runs on the object's storage \<open>raw\<close>, whose contents are indeterminate:
  it calls \<open>reset\<close>, then fills \<open>s1_coeffs_rev\<close> and \<open>s2_coeffs_poly\<close> with the two
  loops of the source.
\<close>

definition dsp_resampler_ctor :: "(real \<Rightarrow> 'a) \<Rightarrow> 'a::zero dsp_resampler \<Rightarrow> 'a dsp_resampler" where
  "dsp_resampler_ctor f32 raw =
     (let st = reset raw;
          coeffs_rev = fold (\<lambda>i tab. tab[i := S1_COEFFS f32 ! (S1_TAPS - 1 - i)])
                         [0..<S1_TAPS] (s1_coeffs_rev st);
          coeffs_poly = fold (\<lambda>phase. fold (\<lambda>tap bank.
                           let raw_idx = phase + tap * S2_PHASES in
                           if raw_idx < S2_TAPS_TOTAL
                           then bank[phase := (bank ! phase)[S2_TAPS_PER_PHASE - 1 - tap :=
                                             S2_COEFFS_RAW f32 ! raw_idx]]
                           else bank[phase := (bank ! phase)[S2_TAPS_PER_PHASE - 1 - tap := 0]])
                         [0..<S2_TAPS_PER_PHASE]) [0..<S2_PHASES] (s2_coeffs_poly st)
      in st\<lparr>s1_coeffs_rev := coeffs_rev, s2_coeffs_poly := coeffs_poly\<rparr>)"

section \<open>Processing\<close>

text \<open>
  The inner loop of both stages: \<open>acc_r\<close> and \<open>acc_i\<close> start at \<open>0.0f\<close> and take
  \<open>h_ptr[k] * c_ptr[k]\<close> for \<open>k = 0, ..., n - 1\<close> in this order; \<open>h_ptr\<close> is the history
  array at offset \<open>off\<close>.
\<close>

definition convolve :: "'a complex_float list \<Rightarrow> nat \<Rightarrow> 'a list \<Rightarrow> nat \<Rightarrow> 'a::{zero,plus,times} complex_float" where
  "convolve hist off c n =
     fold (\<lambda>k (acc_r, acc_i).
             (acc_r + fst (hist ! (off + k)) * (c ! k), acc_i + snd (hist ! (off + k)) * (c ! k)))
          [0..<n] (0, 0)"

text \<open>
  The output buffer is the memory behind the pointer \<open>out_buffer\<close>, a function from
  offsets to samples; \<open>out_cap\<close> and \<open>out_produced\<close> are \<open>size_t\<close>. Each function returns
  the new resampler state, the new buffer and the new \<open>out_produced\<close>.

  \<open>s2_emit\<close> is the \<open>while\<close> loop of \<open>push_stage2\<close> together with the statement after it:
  the \<open>return\<close> inside the loop leaves the function before the phase is wrapped.
\<close>

function s2_emit :: "'a::{zero,plus,times} dsp_resampler \<Rightarrow> (nat \<Rightarrow> 'a complex_float) \<Rightarrow> nat \<Rightarrow> nat
    \<Rightarrow> 'a dsp_resampler \<times> (nat \<Rightarrow> 'a complex_float) \<times> nat" where
  "s2_emit st out_buffer out_cap out_produced =
     (if s2_phase_state st < S2_INTERP then
        (if out_produced \<ge> out_cap then (st, out_buffer, out_produced)
         else
           let y = convolve (s2_history st) (nat (s2_head st))
                     (s2_coeffs_poly st ! nat (s2_phase_state st)) S2_TAPS_PER_PHASE
           in s2_emit (st\<lparr>s2_phase_state := s2_phase_state st + S2_DECIM\<rparr>)
                (out_buffer(out_produced := y)) out_cap (Suc out_produced))
      else (st\<lparr>s2_phase_state := s2_phase_state st - S2_INTERP\<rparr>, out_buffer, out_produced))"
  by pat_completeness auto
termination
  by (relation "measure (\<lambda>(st, out_buffer, out_cap, out_produced). nat (S2_INTERP - s2_phase_state st))") auto

declare s2_emit.simps [simp del]

definition push_stage2 :: "'a::{zero,plus,times} dsp_resampler \<Rightarrow> 'a complex_float \<Rightarrow> (nat \<Rightarrow> 'a complex_float) \<Rightarrow> nat \<Rightarrow> nat
    \<Rightarrow> 'a dsp_resampler \<times> (nat \<Rightarrow> 'a complex_float) \<times> nat" where
  "push_stage2 st sample out_buffer out_cap out_produced =
     (let st = st\<lparr>s2_history := (s2_history st)
                  [nat (s2_head st) := sample, nat (s2_head st) + S2_TAPS_PER_PHASE := sample]\<rparr>;
          st = st\<lparr>s2_head := s2_head st + 1\<rparr>;
          st = (if s2_head st \<ge> int S2_TAPS_PER_PHASE then st\<lparr>s2_head := 0\<rparr> else st)
      in s2_emit st out_buffer out_cap out_produced)"

definition push_stage1 :: "'a::{zero,plus,times} dsp_resampler \<Rightarrow> 'a complex_float \<Rightarrow> (nat \<Rightarrow> 'a complex_float) \<Rightarrow> nat \<Rightarrow> nat
    \<Rightarrow> 'a dsp_resampler \<times> (nat \<Rightarrow> 'a complex_float) \<times> nat" where
  "push_stage1 st sample out_buffer out_cap out_produced =
     (let st = st\<lparr>s1_history := (s1_history st)
                  [nat (s1_head st) := sample, nat (s1_head st) + S1_TAPS := sample]\<rparr>;
          st = st\<lparr>s1_head := s1_head st + 1\<rparr>;
          st = (if s1_head st \<ge> int S1_TAPS then st\<lparr>s1_head := 0\<rparr> else st);
          st = st\<lparr>s1_index := s1_index st + 1\<rparr>
      in if s1_index st \<ge> S1_DECIMATION then
           (let st = st\<lparr>s1_index := 0\<rparr>;
                y = convolve (s1_history st) (nat (s1_head st)) (s1_coeffs_rev st) S1_TAPS
            in push_stage2 st y out_buffer out_cap out_produced)
         else (st, out_buffer, out_produced))"

text \<open>
  \<open>process\<close>: the \<open>for\<close> loop over the \<open>in_count\<close> input samples (the list \<open>ins\<close>), left by
  \<open>break\<close> as soon as the output buffer is full.
\<close>

fun process_loop :: "'a::{zero,plus,times} dsp_resampler \<Rightarrow> 'a complex_float list \<Rightarrow> (nat \<Rightarrow> 'a complex_float) \<Rightarrow> nat \<Rightarrow> nat
    \<Rightarrow> 'a dsp_resampler \<times> (nat \<Rightarrow> 'a complex_float) \<times> nat" where
  "process_loop st [] out_buffer out_cap out_produced = (st, out_buffer, out_produced)"
| "process_loop st (x # ins) out_buffer out_cap out_produced =
     (case push_stage1 st x out_buffer out_cap out_produced of
        (st', out_buffer', out_produced') \<Rightarrow>
          if out_produced' \<ge> out_cap then (st', out_buffer', out_produced')
          else process_loop st' ins out_buffer' out_cap out_produced')"

definition process :: "'a::{zero,plus,times} dsp_resampler \<Rightarrow> 'a complex_float list \<Rightarrow> (nat \<Rightarrow> 'a complex_float) \<Rightarrow> nat
    \<Rightarrow> 'a dsp_resampler \<times> (nat \<Rightarrow> 'a complex_float) \<times> nat" where
  "process st ins out_buffer out_cap = process_loop st ins out_buffer out_cap 0"


section \<open>Ring buffer (circular\_buffer.h)\<close>

text \<open>
  Only the declaration of \<open>class circular_buffer\<close> is among the sources. The buffer is
  modelled by its contents: the items between the read and the write cursor, oldest
  first, the capacity in items and the overwrite flag of the constructor.
\<close>

record 'b circular_buffer =
  items :: "'b list"
  m_buf_len :: nat
  m_overwrite :: bool

text \<open>
  Modelled from the spec: \<open>circular_buffer::write\<close>, whose body (circular\_buffer.cc) is
  not among the sources. "Appends up to \<open>n\<close> items. In non-overwrite mode, stops at free
  space; in overwrite mode, advances the read cursor to discard the oldest items as needed
  and always writes all \<open>n\<close>." The result is the new buffer and the number of items
  written.
\<close>

definition cb_write :: "'b circular_buffer \<Rightarrow> 'b list \<Rightarrow> 'b circular_buffer \<times> nat" where
  "cb_write b src =
     (if m_overwrite b then
        (b\<lparr>items := drop (length (items b @ src) - m_buf_len b) (items b @ src)\<rparr>, length src)
      else
        (let n = min (length src) (m_buf_len b - length (items b))
         in (b\<lparr>items := items b @ take n src\<rparr>, n)))"

text \<open>
  Modelled from the spec: \<open>circular_buffer::data_available\<close>, whose body is not among the
  sources: the number of items between the cursors.
\<close>

definition data_available :: "'b circular_buffer \<Rightarrow> nat" where
  "data_available b = length (items b)"

section \<open>Source adapter (iio\_source.h, iio\_source.cc)\<close>

text \<open>
  The members of \<open>class iio_source\<close> that \<open>start\<close>, \<open>worker_thread\<close> and \<open>fill\<close> use. A
  pointer member is modelled by what the code asks of it: \<open>m_dev\<close> and \<open>m_rxbuf\<close> by
  whether they are non-null, \<open>cb\<close> by the buffer it points to (\<open>None\<close> for \<open>NULL\<close>),
  \<open>m_resampler\<close> by the resampler. \<open>m_overflow_count\<close> is a
  \<open>std::atomic<unsigned int>\<close>: a 32-bit word. The process-wide flag \<open>g_kal_exit_req\<close>
  stands beside the object in the record \<open>world\<close>.
\<close>

definition BATCH_SIZE :: nat where
  "BATCH_SIZE = 32768"

record 'a iio_source =
  m_dev :: bool
  m_rxbuf :: bool
  cb :: "'a complex_float circular_buffer option"
  streaming :: bool
  m_overflow_count :: "32 word"
  m_resampler :: "'a dsp_resampler"
  m_batch_buffer :: "'a complex_float list"

record 'a world =
  source :: "'a iio_source"
  g_kal_exit_req :: bool

text \<open>
  \<open>start\<close>; \<open>create_ok\<close> tells whether the driver creates the receive buffer. The worker
  thread that \<open>start\<close> launches acts through the events below.
\<close>

definition start :: "bool \<Rightarrow> 'a::zero iio_source \<Rightarrow> 'a iio_source \<times> int" where
  "start create_ok s =
     (if \<not> m_dev s then (s, - 1)
      else
        let s = s\<lparr>m_resampler := reset (m_resampler s)\<rparr>;
            s = s\<lparr>m_overflow_count := 0\<rparr>;
            s = s\<lparr>m_rxbuf := create_ok\<rparr>
        in if \<not> m_rxbuf s then (s, - 1)
           else (s\<lparr>streaming := True\<rparr>, 0))"

text \<open>
  One pass of the loop of \<open>worker_thread\<close>, for a refill that succeeded. The refilled
  driver buffer is the list \<open>chunk\<close> of its \<open>int16\<close> pairs, from \<open>start\<close> to \<open>end\<close> in
  steps of \<open>step\<close>. \<open>convert_batch\<close> is the conversion loop: it stops at the end of the
  chunk or when \<open>count\<close> reaches \<open>BATCH_SIZE\<close>. An \<open>int16\<close> converts to \<open>float\<close> exactly,
  and \<open>scale = 1.0f / 2048.0f\<close> is the float \<open>2\<^sup>-\<^sup>1\<^sup>1\<close>.
\<close>

definition convert_sample :: "(real \<Rightarrow> 'a) \<Rightarrow> 'a::times \<Rightarrow> 16 word \<times> 16 word \<Rightarrow> 'a complex_float" where
  "convert_sample f32 scale s =
     (f32 (real_of_int (sint (fst s))) * scale, f32 (real_of_int (sint (snd s))) * scale)"

fun convert_batch :: "(real \<Rightarrow> 'a) \<Rightarrow> 'a::times \<Rightarrow> (16 word \<times> 16 word) list \<Rightarrow> nat
    \<Rightarrow> 'a complex_float list \<Rightarrow> 'a complex_float list \<times> nat" where
  "convert_batch f32 scale [] count batch = (batch, count)"
| "convert_batch f32 scale (s # chunk) count batch =
     (if count < BATCH_SIZE
      then convert_batch f32 scale chunk (Suc count) (batch[count := convert_sample f32 scale s])
      else (batch, count))"

text \<open>
  The first half of the pass: conversion and resampling into the local array \<open>out_buf\<close>,
  whose initial contents are indeterminate. It returns the object, the array and
  \<open>produced\<close>.
\<close>

definition worker_dsp :: "(real \<Rightarrow> 'a) \<Rightarrow> 'a::{zero,plus,times} iio_source \<Rightarrow> (16 word \<times> 16 word) list
    \<Rightarrow> (nat \<Rightarrow> 'a complex_float) \<Rightarrow> 'a iio_source \<times> (nat \<Rightarrow> 'a complex_float) \<times> nat" where
  "worker_dsp f32 s chunk out_buf =
     (let scale = f32 (1 / 2048) in
      case convert_batch f32 scale chunk 0 (m_batch_buffer s) of (batch, count) \<Rightarrow>
      case process (m_resampler s) (take count batch) out_buf BATCH_SIZE of (r, out_buf, produced) \<Rightarrow>
        (s\<lparr>m_batch_buffer := batch, m_resampler := r\<rparr>, out_buf, produced))"

text \<open>
  The second half: the hand-over to the ring buffer. \<open>lock_ok\<close> is the result of
  \<open>try_lock\<close> on the data mutex. \<open>produced\<close> is at most \<open>BATCH_SIZE\<close>, so its conversion
  to the \<open>unsigned int\<close> parameter of \<open>write\<close> keeps its value.
\<close>

definition worker_handoff :: "'a iio_source \<Rightarrow> (nat \<Rightarrow> 'a complex_float) \<Rightarrow> nat \<Rightarrow> bool \<Rightarrow> 'a iio_source" where
  "worker_handoff s out_buf produced lock_ok =
     (if produced > 0 then
        (if lock_ok then
           (case cb s of
              Some b \<Rightarrow>
                (case cb_write b (map out_buf [0..<produced]) of (b', written) \<Rightarrow>
                   if written < produced
                   then s\<lparr>cb := Some b',
                          m_overflow_count := m_overflow_count s + of_nat (produced - written)\<rparr>
                   else s\<lparr>cb := Some b'\<rparr>)
            | None \<Rightarrow> s)
         else s\<lparr>m_overflow_count := m_overflow_count s + of_nat produced\<rparr>)
      else s)"

definition worker_iteration :: "(real \<Rightarrow> 'a) \<Rightarrow> 'a::{zero,plus,times} iio_source \<Rightarrow> (16 word \<times> 16 word) list
    \<Rightarrow> (nat \<Rightarrow> 'a complex_float) \<Rightarrow> bool \<Rightarrow> 'a iio_source" where
  "worker_iteration f32 s chunk out_buf lock_ok =
     (case worker_dsp f32 s chunk out_buf of (s', out_buf', produced) \<Rightarrow>
        worker_handoff s' out_buf' produced lock_ok)"

text \<open>
  \<open>fill\<close> runs beside the worker thread and the signal handler. What they do while
  \<open>fill\<close> waits on the condition variable is a list of events, one per wait: a pass of
  the worker loop, the signal that sets \<open>g_kal_exit_req\<close>, or a \<open>stop\<close> that clears
  \<open>streaming\<close>.
\<close>

datatype 'a event =
    Worker_Pass "(16 word \<times> 16 word) list" "nat \<Rightarrow> 'a complex_float" bool
  | Exit_Signal
  | Stop_Request

fun apply_event :: "(real \<Rightarrow> 'a) \<Rightarrow> 'a::{zero,plus,times} world \<Rightarrow> 'a event \<Rightarrow> 'a world" where
  "apply_event f32 w (Worker_Pass chunk out_buf lock_ok) =
     w\<lparr>source := worker_iteration f32 (source w) chunk out_buf lock_ok\<rparr>"
| "apply_event f32 w Exit_Signal = w\<lparr>g_kal_exit_req := True\<rparr>"
| "apply_event f32 w Stop_Request = w\<lparr>source := (source w)\<lparr>streaming := False\<rparr>\<rparr>"

text \<open>
  A call either returns, or still waits when the events are used up, or dereferences a
  null \<open>cb\<close>.
\<close>

datatype 'r run = Done 'r | Blocked | Fault

text \<open>
  The tests at the head of the \<open>while (true)\<close> loop of \<open>fill\<close>: leave with \<open>return -1\<close>,
  leave with \<open>break\<close>, or wait.
\<close>

datatype check = Return_Exit | Break | Wait | Null_Deref

definition fill_check :: "'a world \<Rightarrow> nat \<Rightarrow> check" where
  "fill_check w num_samples =
     (if g_kal_exit_req w then Return_Exit
      else case cb (source w) of
             None \<Rightarrow> Null_Deref
           | Some b \<Rightarrow>
               if data_available b \<ge> num_samples \<or> \<not> streaming (source w) then Break else Wait)"

fun fill_loop :: "(real \<Rightarrow> 'a) \<Rightarrow> 'a::{zero,plus,times} world \<Rightarrow> 'a event list \<Rightarrow> nat \<Rightarrow> ('a world \<times> bool) run" where
  "fill_loop f32 w [] num_samples =
     (case fill_check w num_samples of
        Return_Exit \<Rightarrow> Done (w, True)
      | Break \<Rightarrow> Done (w, False)
      | Wait \<Rightarrow> Blocked
      | Null_Deref \<Rightarrow> Fault)"
| "fill_loop f32 w (ev # events) num_samples =
     (case fill_check w num_samples of
        Return_Exit \<Rightarrow> Done (w, True)
      | Break \<Rightarrow> Done (w, False)
      | Wait \<Rightarrow> fill_loop f32 (apply_event f32 w ev) events num_samples
      | Null_Deref \<Rightarrow> Fault)"

text \<open>
  \<open>fill\<close>; \<open>overruns\<close> is the cell behind the pointer (\<open>None\<close> for a null pointer). It
  returns the world, the return value and the cell. \<open>ensure_started\<close> is its statement
  \<open>if (!streaming.load()) start();\<close>.
\<close>

definition ensure_started :: "bool \<Rightarrow> 'a::zero world \<Rightarrow> 'a world" where
  "ensure_started create_ok w =
     (if \<not> streaming (source w) then w\<lparr>source := fst (start create_ok (source w))\<rparr> else w)"

definition fill :: "(real \<Rightarrow> 'a) \<Rightarrow> bool \<Rightarrow> 'a event list \<Rightarrow> 'a::{zero,plus,times} world \<Rightarrow> nat \<Rightarrow> 32 word option
    \<Rightarrow> ('a world \<times> int \<times> 32 word option) run" where
  "fill f32 create_ok events w num_samples overruns =
     (case cb (source w) of
        None \<Rightarrow> Done (w, - 1, overruns)
      | Some b \<Rightarrow>
          (case fill_loop f32 (ensure_started create_ok w) events num_samples of
             Blocked \<Rightarrow> Blocked
           | Fault \<Rightarrow> Fault
           | Done (w, True) \<Rightarrow> Done (w, - 1, overruns)
           | Done (w, False) \<Rightarrow>
               if \<not> streaming (source w) then Done (w, - 1, overruns)
               else (case overruns of
                       Some old \<Rightarrow>
                         Done (w\<lparr>source := (source w)\<lparr>m_overflow_count := 0\<rparr>\<rparr>, 0,
                               Some (m_overflow_count (source w)))
                     | None \<Rightarrow> Done (w, 0, None))))"



section \<open>Callers of the resampler\<close>

text \<open>
  The public interface is the constructor, \<open>reset\<close> and \<open>process\<close>. A history of the
  object is the list of calls made on it after construction; \<open>run_calls\<close> gives the
  state they leave. A \<open>process\<close> call on a prefix of an input block leaves the state that
  the call on the whole block passes through after that prefix, so the states between two
  consumed input samples are among the states \<open>run_calls\<close> reaches.
\<close>

datatype 'a call = Reset | Process "'a complex_float list" "nat \<Rightarrow> 'a complex_float" nat

fun run_calls :: "'a::{zero,plus,times} dsp_resampler \<Rightarrow> 'a call list \<Rightarrow> 'a dsp_resampler" where
  "run_calls st [] = st"
| "run_calls st (Reset # calls) = run_calls (reset st) calls"
| "run_calls st (Process ins out_buffer out_cap # calls) =
     run_calls (fst (process st ins out_buffer out_cap)) calls"

text \<open>An object storage with the array sizes of the class, every cell zero.\<close>

definition blank_storage :: "'a::zero dsp_resampler" where
  "blank_storage = \<lparr>
     s1_index = 0,
     s1_history = replicate (2 * S1_TAPS) (0, 0),
     s1_coeffs_rev = replicate S1_TAPS 0,
     s1_head = 0,
     s2_coeffs_poly = replicate S2_PHASES (replicate S2_TAPS_PER_PHASE 0),
     s2_history = replicate (2 * S2_TAPS_PER_PHASE) (0, 0),
     s2_head = 0,
     s2_phase_state = 0\<rparr>"

section \<open>Notions of the specification\<close>

text \<open>
  The dot product of the specification: the products of corresponding entries, summed
  from the first to the last, starting from zero.
\<close>

definition dot_product :: "'a::{zero,plus,times} list \<Rightarrow> 'a list \<Rightarrow> 'a" where
  "dot_product xs cs = foldl (\<lambda>acc (x, c). acc + x * c) 0 (zip xs cs)"

section \<open>Auxiliary notions\<close>

text \<open>
  The first statements of \<open>push_stage1\<close> and \<open>push_stage2\<close>: the sample is stored twice
  and the head advances modulo the number of taps.
\<close>

definition s1_store :: "'a dsp_resampler \<Rightarrow> 'a complex_float \<Rightarrow> 'a dsp_resampler" where
  "s1_store st x = st\<lparr>
     s1_history := (s1_history st)[nat (s1_head st) := x, nat (s1_head st) + 61 := x],
     s1_head := (if s1_head st + 1 \<ge> 61 then 0 else s1_head st + 1)\<rparr>"

definition s2_store :: "'a dsp_resampler \<Rightarrow> 'a complex_float \<Rightarrow> 'a dsp_resampler" where
  "s2_store st x = st\<lparr>
     s2_history := (s2_history st)[nat (s2_head st) := x, nat (s2_head st) + 57 := x],
     s2_head := (if s2_head st + 1 \<ge> 57 then 0 else s2_head st + 1)\<rparr>"

text \<open>
  The invariant of the resampler: the array sizes, the ranges of the four counters, and
  the double storage of both histories.
\<close>

definition resampler_inv :: "'a dsp_resampler \<Rightarrow> bool" where
  "resampler_inv st \<longleftrightarrow>
     array_shapes st \<and>
     0 \<le> s1_index st \<and> s1_index st < 5 \<and>
     0 \<le> s1_head st \<and> s1_head st < 61 \<and>
     0 \<le> s2_head st \<and> s2_head st < 57 \<and>
     0 \<le> s2_phase_state st \<and> s2_phase_state st < 24 \<and>
     take 61 (s1_history st) = drop 61 (s1_history st) \<and>
     take 57 (s2_history st) = drop 57 (s2_history st)"

text \<open>
  The number of output samples that \<open>n\<close> further input samples yield when the decimation
  counter is \<open>j\<close> and the phase is \<open>ph\<close>, as long as the output buffer has room.
\<close>

definition emitted :: "int \<Rightarrow> int \<Rightarrow> nat \<Rightarrow> int" where
  "emitted j ph n = (13 * ((j + int n) div 5) - ph + 23) div 24"

definition zero_history :: "'a::zero dsp_resampler \<Rightarrow> bool" where
  "zero_history st \<longleftrightarrow>
     s1_history st = replicate 122 (0, 0) \<and> s2_history st = replicate 114 (0, 0)"

text \<open>
  The states that one \<open>process\<close> call passes through: the state after each input sample
  that the loop consumes, in order. The last one is the state the call returns.
\<close>

fun process_trace :: "'a::{zero,plus,times} dsp_resampler \<Rightarrow> 'a complex_float list \<Rightarrow> (nat \<Rightarrow> 'a complex_float) \<Rightarrow> nat \<Rightarrow> nat
    \<Rightarrow> 'a dsp_resampler list" where
  "process_trace st [] out_buffer out_cap out_produced = []"
| "process_trace st (x # ins) out_buffer out_cap out_produced =
     (case push_stage1 st x out_buffer out_cap out_produced of
        (st', out_buffer', out_produced') \<Rightarrow>
          st' # (if out_produced' \<ge> out_cap then []
                 else process_trace st' ins out_buffer' out_cap out_produced'))"

text \<open>The double storage of the two histories.\<close>

definition double_storage :: "'a dsp_resampler \<Rightarrow> bool" where
  "double_storage st \<longleftrightarrow>
     (\<forall>k\<in>{0..<61}. s1_history st ! k = s1_history st ! (k + 61)) \<and>
     (\<forall>k\<in>{0..<57}. s2_history st ! k = s2_history st ! (k + 57))"


section \<open>Example source\<close>

text \<open>
  The source after its constructor, \<open>open\<close> and \<open>start\<close> have succeeded: the device and the
  driver buffer exist, \<open>open\<close> has created the empty ring buffer of 262144 items,
  \<open>start\<close> has reset the resampler that the constructor built and the overflow counter,
  and \<open>streaming\<close> is true. The zeros of \<open>blank_storage\<close> and of \<open>m_batch_buffer\<close> stand for
  the indeterminate contents of storage that the code overwrites before it reads.
\<close>

definition opened_source :: "(real \<Rightarrow> 'a) \<Rightarrow> 'a::zero iio_source" where
  "opened_source f32 = \<lparr>
     m_dev = True, m_rxbuf = True,
     cb = Some \<lparr>items = [], m_buf_len = 262144, m_overwrite = False\<rparr>,
     streaming = True, m_overflow_count = 0,
     m_resampler = reset (dsp_resampler_ctor f32 blank_storage),
     m_batch_buffer = replicate BATCH_SIZE (0, 0)\<rparr>"


section \<open>Lemmas on the resampler\<close>

lemma S1_COEFFS_length: "length (S1_COEFFS f32) = 61"
  by (simp add: S1_COEFFS_def)

lemma S2_COEFFS_RAW_length: "length (S2_COEFFS_RAW f32) = 729"
  by (simp add: S2_COEFFS_RAW_def)

lemma fold_update_length:
  "length (fold (\<lambda>t row. row[f t := g t]) ts r) = length r"
  by (induction ts arbitrary: r) simp_all

lemma fold_update_rev_nth:
  "n \<le> length r \<Longrightarrow> j < length r \<Longrightarrow>
   fold (\<lambda>t row. row[length r - 1 - t := g t]) [0..<n] r ! j
     = (if length r - 1 - j < n then g (length r - 1 - j) else r ! j)"
proof (induction n)
  case 0
  then show ?case by simp
next
  case (Suc n)
  let ?r' = "fold (\<lambda>t row. row[length r - 1 - t := g t]) [0..<n] r"
  have len: "length ?r' = length r"
    by (rule fold_update_length)
  from Suc have IH: "?r' ! j = (if length r - 1 - j < n then g (length r - 1 - j) else r ! j)"
    by simp
  show ?case
  proof (cases "j = length r - 1 - n")
    case True
    with Suc.prems len show ?thesis by simp
  next
    case False
    with Suc.prems len IH show ?thesis by (auto simp: nth_list_update)
  qed
qed

lemma fold_update_fwd_nth:
  "n \<le> length r \<Longrightarrow> j < length r \<Longrightarrow>
   fold (\<lambda>i tab. tab[i := g i]) [0..<n] r ! j = (if j < n then g j else r ! j)"
proof (induction n)
  case 0
  then show ?case by simp
next
  case (Suc n)
  have len: "length (fold (\<lambda>i tab. tab[i := g i]) [0..<n] r) = length r"
    by (rule fold_update_length)
  with Suc show ?case by (auto simp: nth_list_update)
qed

lemma fold_row_update:
  "p < length bank \<Longrightarrow>
   fold (\<lambda>tap bank. bank[p := (bank ! p)[f tap := g tap]]) [0..<n] bank
     = bank[p := fold (\<lambda>tap row. row[f tap := g tap]) [0..<n] (bank ! p)]"
  by (induction n) simp_all

lemma fold_rows_length:
  "length (fold (\<lambda>ph bank. bank[ph := F ph (bank ! ph)]) phs bank) = length bank"
  by (induction phs arbitrary: bank) simp_all

lemma fold_rows_nth:
  "n \<le> length bank \<Longrightarrow> p < length bank \<Longrightarrow>
   fold (\<lambda>ph bank. bank[ph := F ph (bank ! ph)]) [0..<n] bank ! p
     = (if p < n then F p (bank ! p) else bank ! p)"
proof (induction n)
  case 0
  then show ?case by simp
next
  case (Suc n)
  have len: "length (fold (\<lambda>ph bank. bank[ph := F ph (bank ! ph)]) [0..<n] bank) = length bank"
    by (rule fold_rows_length)
  with Suc show ?case by (auto simp: nth_list_update)
qed

lemma ctor_s2_coeffs_poly:
  assumes "array_shapes raw"
  shows "s2_coeffs_poly (dsp_resampler_ctor f32 raw)
     = fold (\<lambda>ph bank. bank[ph := fold (\<lambda>tap row. row[56 - tap :=
              (if ph + tap * 13 < 729 then S2_COEFFS_RAW f32 ! (ph + tap * 13) else 0)])
              [0..<57] (bank ! ph)]) [0..<13] (s2_coeffs_poly raw)"
proof -
  have inner: "fold (\<lambda>tap bank.
                           if ph + tap * S2_PHASES < S2_TAPS_TOTAL
                           then bank[ph := (bank ! ph)[S2_TAPS_PER_PHASE - 1 - tap :=
                                             S2_COEFFS_RAW f32 ! (ph + tap * S2_PHASES)]]
                           else bank[ph := (bank ! ph)[S2_TAPS_PER_PHASE - 1 - tap := 0]])
                         [0..<n] bank
      = bank[ph := fold (\<lambda>tap row. row[56 - tap :=
              (if ph + tap * 13 < 729 then S2_COEFFS_RAW f32 ! (ph + tap * 13) else 0)])
              [0..<n] (bank ! ph)]" if "ph < length bank" for ph n and bank :: "'a list list"
    using that by (induction n) (simp_all add: Let_def)
  have outer: "fold (\<lambda>ph. G ph) phs bank = fold (\<lambda>ph. H ph) phs bank"
    if "\<And>ph b. ph \<in> set phs \<Longrightarrow> length b = length bank \<Longrightarrow> G ph b = H ph b"
       "\<And>ph b. length (H ph b) = length b"
    for G H :: "nat \<Rightarrow> 'a list list \<Rightarrow> 'a list list" and phs bank
    using that by (induction phs arbitrary: bank) simp_all
  from assms have len: "length (s2_coeffs_poly raw) = 13"
    by (simp add: array_shapes_def)
  show ?thesis
    unfolding dsp_resampler_ctor_def Let_def
    apply (simp add: reset_def)
    apply (rule outer)
     apply (rule inner)
     apply (simp add: len)
    apply simp
    done
qed

lemma s2_emit_full:
  "s2_phase_state st < 13 \<Longrightarrow> cap \<le> p \<Longrightarrow> s2_emit st out cap p = (st, out, p)"
  by (subst s2_emit.simps) simp

lemma s2_emit_skip:
  "13 \<le> s2_phase_state st \<Longrightarrow>
   s2_emit st out cap p = (st\<lparr>s2_phase_state := s2_phase_state st - 13\<rparr>, out, p)"
  by (subst s2_emit.simps) simp

lemma s2_emit_once:
  "s2_phase_state st < 13 \<Longrightarrow> - 11 \<le> s2_phase_state st \<Longrightarrow> p < cap \<Longrightarrow>
   s2_emit st out cap p =
     (st\<lparr>s2_phase_state := s2_phase_state st + 11\<rparr>,
      out(p := convolve (s2_history st) (nat (s2_head st))
                 (s2_coeffs_poly st ! nat (s2_phase_state st)) 57),
      Suc p)"
  by (subst s2_emit.simps, simp add: Let_def, subst s2_emit.simps, simp)

lemma s2_emit_frame:
  "s2_emit st out cap p = (st', out', p') \<Longrightarrow>
   st' = st\<lparr>s2_phase_state := s2_phase_state st'\<rparr> \<and> p \<le> p' \<and> (p \<le> cap \<longrightarrow> p' \<le> cap) \<and>
   (\<forall>i. \<not> (p \<le> i \<and> i < p') \<longrightarrow> out' i = out i)"
proof (induction st out cap p arbitrary: st' out' p' rule: s2_emit.induct)
  case (1 st out cap p)
  show ?case
  proof (cases "s2_phase_state st < 13")
    case False
    with "1.prems" show ?thesis
      by (subst (asm) s2_emit.simps) auto
  next
    case True
    show ?thesis
    proof (cases "cap \<le> p")
      case True
      with \<open>s2_phase_state st < 13\<close> "1.prems" show ?thesis
        by (simp add: s2_emit_full)
    next
      case False
      define y where "y = convolve (s2_history st) (nat (s2_head st))
                     (s2_coeffs_poly st ! nat (s2_phase_state st)) S2_TAPS_PER_PHASE"
      from True False "1.prems"
      have step: "s2_emit (st\<lparr>s2_phase_state := s2_phase_state st + S2_DECIM\<rparr>)
                (out(p := y)) cap (Suc p) = (st', out', p')"
        by (subst (asm) s2_emit.simps) (simp add: Let_def y_def)
      from "1.IH" [OF True False y_def step] False
      show ?thesis by auto
    qed
  qed
qed

lemma push_stage2_eq:
  "push_stage2 st y out cap p = s2_emit (s2_store st y) out cap p"
  by (simp add: push_stage2_def s2_store_def Let_def)

lemma push_stage1_keep:
  "s1_index st + 1 < 5 \<Longrightarrow>
   push_stage1 st x out cap p = ((s1_store st x)\<lparr>s1_index := s1_index st + 1\<rparr>, out, p)"
  by (simp add: push_stage1_def s1_store_def Let_def)

lemma push_stage1_emit:
  "5 \<le> s1_index st + 1 \<Longrightarrow>
   push_stage1 st x out cap p =
     push_stage2 ((s1_store st x)\<lparr>s1_index := 0\<rparr>)
       (convolve (s1_history (s1_store st x)) (nat (s1_head (s1_store st x))) (s1_coeffs_rev st) 61)
       out cap p"
  by (simp add: push_stage1_def s1_store_def Let_def)

lemma double_store:
  assumes "length h = 2 * n" "a < n" "take n h = drop n h"
  shows "take n (h[a := x, a + n := x]) = drop n (h[a := x, a + n := x])"
proof (rule nth_equalityI)
  show "length (take n (h[a := x, a + n := x])) = length (drop n (h[a := x, a + n := x]))"
    using assms by simp
next
  fix i assume "i < length (take n (h[a := x, a + n := x]))"
  with assms have i: "i < n" by simp
  from i have "h ! i = take n h ! i" by simp
  also from assms(3) have "\<dots> = drop n h ! i" by (rule arg_cong)
  also from i assms(1) have "\<dots> = h ! (n + i)" by simp
  finally have old: "h ! i = h ! (n + i)" .
  from i assms old show "take n (h[a := x, a + n := x]) ! i = drop n (h[a := x, a + n := x]) ! i"
    by (auto simp: nth_list_update)
qed

lemma s1_store_inv:
  "resampler_inv st \<Longrightarrow> resampler_inv (s1_store st x)"
  using double_store [of "s1_history st" 61 "nat (s1_head st)" x]
  by (auto simp: resampler_inv_def array_shapes_def s1_store_def)

lemma s2_store_inv:
  "resampler_inv st \<Longrightarrow> resampler_inv (s2_store st x)"
  using double_store [of "s2_history st" 57 "nat (s2_head st)" x]
  by (auto simp: resampler_inv_def array_shapes_def s2_store_def)

lemma s2_emit_inv:
  assumes "resampler_inv st"
  shows "resampler_inv (fst (s2_emit st out cap p))"
proof -
  consider "13 \<le> s2_phase_state st" | "s2_phase_state st < 13" "cap \<le> p"
    | "s2_phase_state st < 13" "p < cap" by linarith
  then show ?thesis
  proof cases
    case 1
    with assms show ?thesis
      by (simp add: s2_emit_skip resampler_inv_def array_shapes_def)
  next
    case 2
    with assms show ?thesis by (simp add: s2_emit_full)
  next
    case 3
    moreover from assms have "- 11 \<le> s2_phase_state st" by (simp add: resampler_inv_def)
    ultimately show ?thesis using assms
      by (simp add: s2_emit_once resampler_inv_def array_shapes_def)
  qed
qed

lemma push_stage1_inv:
  assumes "resampler_inv st"
  shows "resampler_inv (fst (push_stage1 st x out cap p))"
proof (cases "s1_index st + 1 < 5")
  case True
  from s1_store_inv [OF assms, of x] assms True show ?thesis
    by (simp add: push_stage1_keep resampler_inv_def array_shapes_def)
next
  case False
  from s1_store_inv [OF assms, of x] have "resampler_inv ((s1_store st x)\<lparr>s1_index := 0\<rparr>)"
    by (simp add: resampler_inv_def array_shapes_def)
  with False show ?thesis
    by (simp add: push_stage1_emit push_stage2_eq s2_emit_inv s2_store_inv)
qed

lemma process_loop_inv:
  "resampler_inv st \<Longrightarrow> resampler_inv (fst (process_loop st ins out cap p))"
proof (induction ins arbitrary: st out p)
  case Nil
  then show ?case by simp
next
  case (Cons x ins)
  obtain st' out' p' where step: "push_stage1 st x out cap p = (st', out', p')"
    by (cases "push_stage1 st x out cap p")
  with push_stage1_inv [OF Cons.prems, of x out cap p] have "resampler_inv st'" by simp
  with Cons.IH step show ?case by simp
qed

lemma reset_inv: "array_shapes st \<Longrightarrow> resampler_inv (reset st)"
  by (simp add: resampler_inv_def array_shapes_def reset_def)

lemma ctor_fields:
  "s1_index (dsp_resampler_ctor f32 raw) = 0"
  "s1_head (dsp_resampler_ctor f32 raw) = 0"
  "s2_head (dsp_resampler_ctor f32 raw) = 0"
  "s2_phase_state (dsp_resampler_ctor f32 raw) = 0"
  "s1_history (dsp_resampler_ctor f32 raw) = replicate 122 (0, 0)"
  "s2_history (dsp_resampler_ctor f32 raw) = replicate 114 (0, 0)"
  by (simp_all add: dsp_resampler_ctor_def Let_def reset_def)

lemma ctor_s1_coeffs_rev:
  "s1_coeffs_rev (dsp_resampler_ctor f32 raw)
     = fold (\<lambda>i tab. tab[i := S1_COEFFS f32 ! (60 - i)]) [0..<61] (s1_coeffs_rev raw)"
  by (simp add: dsp_resampler_ctor_def Let_def reset_def)

lemma ctor_shapes:
  assumes "array_shapes raw"
  shows "array_shapes (dsp_resampler_ctor f32 raw)"
proof -
  let ?F = "\<lambda>ph. fold (\<lambda>tap row. row[56 - tap :=
              (if ph + tap * 13 < 729 then S2_COEFFS_RAW f32 ! (ph + tap * 13) else 0)]) [0..<57]"
  from assms have len: "length (s2_coeffs_poly raw) = 13"
    and rows: "\<And>p. p < 13 \<Longrightarrow> length (s2_coeffs_poly raw ! p) = 57"
    by (simp_all add: array_shapes_def list_all_length)
  have poly: "s2_coeffs_poly (dsp_resampler_ctor f32 raw)
      = fold (\<lambda>ph bank. bank[ph := ?F ph (bank ! ph)]) [0..<13] (s2_coeffs_poly raw)"
    by (rule ctor_s2_coeffs_poly [OF assms])
  have "length (s2_coeffs_poly (dsp_resampler_ctor f32 raw) ! p) = 57" if "p < 13" for p
    using that len rows by (simp add: poly fold_rows_nth [where F = ?F] fold_update_length)
  moreover have "length (s2_coeffs_poly (dsp_resampler_ctor f32 raw)) = 13"
    by (simp add: poly fold_rows_length [where F = ?F] len)
  moreover from assms have "length (s1_coeffs_rev (dsp_resampler_ctor f32 raw)) = 61"
    by (simp add: ctor_s1_coeffs_rev fold_update_length array_shapes_def)
  ultimately show ?thesis
    by (simp add: array_shapes_def list_all_length ctor_fields)
qed

lemma ctor_inv: "array_shapes raw \<Longrightarrow> resampler_inv (dsp_resampler_ctor f32 raw)"
  by (simp add: resampler_inv_def ctor_shapes ctor_fields)

lemma s2_emit_eq:
  "- 11 \<le> s2_phase_state st \<Longrightarrow>
   s2_emit st out cap p =
     (if s2_phase_state st < 13 then
        (if p < cap then
           (st\<lparr>s2_phase_state := s2_phase_state st + 11\<rparr>,
            out(p := convolve (s2_history st) (nat (s2_head st))
                       (s2_coeffs_poly st ! nat (s2_phase_state st)) 57),
            Suc p)
         else (st, out, p))
      else (st\<lparr>s2_phase_state := s2_phase_state st - 13\<rparr>, out, p))"
  by (simp add: s2_emit_once s2_emit_full s2_emit_skip)

lemma s1_store_fields:
  "s1_index (s1_store st x) = s1_index st"
  "s1_coeffs_rev (s1_store st x) = s1_coeffs_rev st"
  "s2_coeffs_poly (s1_store st x) = s2_coeffs_poly st"
  "s2_history (s1_store st x) = s2_history st"
  "s2_head (s1_store st x) = s2_head st"
  "s2_phase_state (s1_store st x) = s2_phase_state st"
  by (simp_all add: s1_store_def)

lemma s2_store_fields:
  "s1_index (s2_store st x) = s1_index st"
  "s1_coeffs_rev (s2_store st x) = s1_coeffs_rev st"
  "s2_coeffs_poly (s2_store st x) = s2_coeffs_poly st"
  "s1_history (s2_store st x) = s1_history st"
  "s1_head (s2_store st x) = s1_head st"
  "s2_phase_state (s2_store st x) = s2_phase_state st"
  by (simp_all add: s2_store_def)

lemma push_stage1_eq:
  assumes "resampler_inv st"
  shows "push_stage1 st x out cap p =
     (if s1_index st = 4 then
        s2_emit (s2_store ((s1_store st x)\<lparr>s1_index := 0\<rparr>)
                  (convolve (s1_history (s1_store st x)) (nat (s1_head (s1_store st x)))
                     (s1_coeffs_rev st) 61)) out cap p
      else ((s1_store st x)\<lparr>s1_index := s1_index st + 1\<rparr>, out, p))"
proof -
  from assms have "0 \<le> s1_index st" "s1_index st < 5"
    by (simp_all add: resampler_inv_def)
  then have "5 \<le> s1_index st + 1 \<longleftrightarrow> s1_index st = 4" "s1_index st + 1 < 5 \<longleftrightarrow> s1_index st \<noteq> 4"
    by auto
  then show ?thesis
    by (cases "s1_index st = 4") (simp_all add: push_stage1_keep push_stage1_emit push_stage2_eq)
qed

lemma push_stage1_ctl:
  assumes "resampler_inv st"
  shows "s1_index (fst (push_stage1 st x out cap p)) = (if s1_index st = 4 then 0 else s1_index st + 1)"
    and "s2_phase_state (fst (push_stage1 st x out cap p)) =
           (if s1_index st = 4 then
              (if s2_phase_state st < 13 then (if p < cap then s2_phase_state st + 11 else s2_phase_state st)
               else s2_phase_state st - 13)
            else s2_phase_state st)"
    and "snd (snd (push_stage1 st x out cap p)) =
           (if s1_index st = 4 \<and> s2_phase_state st < 13 \<and> p < cap then Suc p else p)"
proof -
  from assms(1) have rng: "- 11 \<le> s2_phase_state st"
    by (simp_all add: resampler_inv_def)
  show "s1_index (fst (push_stage1 st x out cap p)) = (if s1_index st = 4 then 0 else s1_index st + 1)"
    using rng
    by (simp add: push_stage1_eq [OF assms] s2_emit_eq s1_store_fields s2_store_fields)
  show "s2_phase_state (fst (push_stage1 st x out cap p)) =
           (if s1_index st = 4 then
              (if s2_phase_state st < 13 then (if p < cap then s2_phase_state st + 11 else s2_phase_state st)
               else s2_phase_state st - 13)
            else s2_phase_state st)"
    using rng
    by (simp add: push_stage1_eq [OF assms] s2_emit_eq s1_store_fields s2_store_fields)
  show "snd (snd (push_stage1 st x out cap p)) =
           (if s1_index st = 4 \<and> s2_phase_state st < 13 \<and> p < cap then Suc p else p)"
    using rng
    by (simp add: push_stage1_eq [OF assms] s2_emit_eq s1_store_fields s2_store_fields)
qed

lemma emitted_nonneg: "0 \<le> j \<Longrightarrow> ph < 24 \<Longrightarrow> 0 \<le> emitted j ph n"
proof -
  assume "0 \<le> j" "ph < 24"
  then have "0 \<le> (j + int n) div 5" by simp
  with \<open>ph < 24\<close> have "0 \<le> 13 * ((j + int n) div 5) - ph + 23" by linarith
  then show ?thesis unfolding emitted_def by simp
qed

lemma emitted_keep: "j \<noteq> 4 \<Longrightarrow> emitted (j + 1) ph n = emitted j ph (Suc n)"
  by (simp add: emitted_def add.commute add.left_commute)

lemma emitted_emit: "emitted 0 (ph + 11) n + 1 = emitted 4 ph (Suc n)"
proof -
  have "(4 + int (Suc n)) div 5 = int n div 5 + 1" by simp
  then show ?thesis unfolding emitted_def by simp
qed

lemma emitted_skip: "emitted 0 (ph - 13) n = emitted 4 ph (Suc n)"
proof -
  have "(4 + int (Suc n)) div 5 = int n div 5 + 1" by simp
  then show ?thesis unfolding emitted_def by simp
qed

lemma process_loop_count:
  assumes "resampler_inv st"
    and "int p + emitted (s1_index st) (s2_phase_state st) (length ins) < int cap"
  shows "int (snd (snd (process_loop st ins out cap p)))
           = int p + emitted (s1_index st) (s2_phase_state st) (length ins)
       \<and> s1_index (fst (process_loop st ins out cap p)) = (s1_index st + int (length ins)) mod 5
       \<and> 24 * int (snd (snd (process_loop st ins out cap p)))
             - s2_phase_state (fst (process_loop st ins out cap p))
           = 24 * int p - s2_phase_state st + 13 * ((s1_index st + int (length ins)) div 5)"
  using assms
proof (induction ins arbitrary: st out p)
  case Nil
  then have "0 \<le> s1_index st" "s1_index st < 5" "0 \<le> s2_phase_state st" "s2_phase_state st < 24"
    by (simp_all add: resampler_inv_def)
  then show ?case by (simp add: emitted_def)
next
  case (Cons x ins)
  let ?j = "s1_index st" and ?ph = "s2_phase_state st" and ?n = "length ins"
  from Cons.prems(1) have rng: "0 \<le> ?j" "?j < 5" "0 \<le> ?ph" "?ph < 24"
    by (simp_all add: resampler_inv_def)
  obtain st' out' p' where step: "push_stage1 st x out cap p = (st', out', p')"
    by (cases "push_stage1 st x out cap p")
  from push_stage1_inv [OF Cons.prems(1), of x out cap p] step have inv': "resampler_inv st'"
    by simp
  then have rng': "0 \<le> s1_index st'" "s2_phase_state st' < 24"
    by (simp_all add: resampler_inv_def)
  from emitted_nonneg [OF rng(1) rng(4), of "Suc ?n"] Cons.prems(2) have room: "p < cap"
    by simp
  from push_stage1_ctl [OF Cons.prems(1), of x out cap p] step room
  have j': "s1_index st' = (if ?j = 4 then 0 else ?j + 1)"
    and ph': "s2_phase_state st' = (if ?j = 4 then (if ?ph < 13 then ?ph + 11 else ?ph - 13) else ?ph)"
    and p': "p' = (if ?j = 4 \<and> ?ph < 13 then Suc p else p)"
    by simp_all
  have total: "int p' + emitted (s1_index st') (s2_phase_state st') ?n
                 = int p + emitted ?j ?ph (Suc ?n)"
    using emitted_keep [of ?j ?ph ?n] emitted_emit [of ?ph ?n] emitted_skip [of ?ph ?n]
    by (simp add: j' ph' p')
  with Cons.prems(2) have hyp: "int p' + emitted (s1_index st') (s2_phase_state st') ?n < int cap"
    by simp
  with emitted_nonneg [OF rng', of ?n] have "p' < cap" by simp
  with step have unfold: "process_loop st (x # ins) out cap p = process_loop st' ins out' cap p'"
    by simp
  have idx: "(s1_index st' + int ?n) mod 5 = (?j + int (Suc ?n)) mod 5"
    using rng by (simp add: j' add.commute add.left_commute)
  have quot: "24 * int p' - s2_phase_state st' + 13 * ((s1_index st' + int ?n) div 5)
      = 24 * int p - ?ph + 13 * ((?j + int (Suc ?n)) div 5)"
  proof (cases "?j = 4")
    case True
    have "(4 + int (Suc ?n)) div 5 = int ?n div 5 + 1" by simp
    with True show ?thesis by (simp add: j' ph' p')
  next
    case False
    then show ?thesis by (simp add: j' ph' p' add.commute add.left_commute)
  qed
  from Cons.IH [OF inv' hyp, of out'] total idx quot show ?case
    unfolding unfold by simp
qed

lemma convolve_zeros:
  "off + n \<le> m \<Longrightarrow> convolve (replicate m (0, 0)) off c n = (0 :: 'a::semiring_0, 0)"
proof (induction n)
  case 0
  then show ?case by (simp add: convolve_def)
next
  case (Suc n)
  then have "convolve (replicate m (0, 0)) off c n = (0 :: 'a, 0)" by simp
  with Suc.prems show ?case
    by (simp add: convolve_def)
qed

lemma replicate_update_same: "(replicate n x)[i := x] = replicate n x"
  by (induction n arbitrary: i) (simp_all split: nat.split)

lemma s1_store_zero:
  "zero_history st \<Longrightarrow> zero_history (s1_store st (0, 0))"
  by (simp add: zero_history_def s1_store_def replicate_update_same)

lemma s2_store_zero:
  "zero_history st \<Longrightarrow> zero_history (s2_store st (0, 0))"
  by (simp add: zero_history_def s2_store_def replicate_update_same)

lemma push_stage1_zero:
  fixes st :: "'a::semiring_0 dsp_resampler"
  assumes "resampler_inv st" "zero_history st"
  shows "zero_history (fst (push_stage1 st (0, 0) out cap p))"
    and "fst (snd (push_stage1 st (0, 0) out cap p))
           = (\<lambda>i. if p \<le> i \<and> i < snd (snd (push_stage1 st (0, 0) out cap p)) then (0, 0) else out i)"
proof -
  let ?s1 = "s1_store st (0, 0)"
  from assms have rng: "- 11 \<le> s2_phase_state st" "0 \<le> s1_head st" "s1_head st < 61"
      "0 \<le> s2_head st" "s2_head st < 57"
    by (simp_all add: resampler_inv_def)
  from s1_store_zero [OF assms(2)] have h1: "s1_history ?s1 = replicate 122 (0, 0)"
    and h2: "s2_history ?s1 = replicate 114 (0, 0)"
    by (simp_all add: zero_history_def)
  from rng have "nat (s1_head ?s1) + 61 \<le> 122"
    by (auto simp: s1_store_def)
  then have y: "convolve (s1_history ?s1) (nat (s1_head ?s1)) (s1_coeffs_rev st) 61 = (0, 0)"
    unfolding h1 by (rule convolve_zeros)
  let ?s2 = "s2_store (?s1\<lparr>s1_index := 0\<rparr>) (0, 0)"
  have z2: "zero_history ?s2"
    using s1_store_zero [OF assms(2)] by (simp add: zero_history_def s2_store_def replicate_update_same)
  then have h2': "s2_history ?s2 = replicate 114 (0, 0)"
    by (simp add: zero_history_def)
  from rng have "nat (s2_head ?s2) + 57 \<le> 114"
    by (auto simp: s2_store_def s1_store_def)
  then have y2: "convolve (s2_history ?s2) (nat (s2_head ?s2)) c 57 = (0, 0)" for c
    unfolding h2' by (rule convolve_zeros)
  have ph2: "s2_phase_state ?s2 = s2_phase_state st"
    by (simp add: s2_store_def s1_store_def)
  show "zero_history (fst (push_stage1 st (0, 0) out cap p))"
    using rng z2 s1_store_zero [OF assms(2)]
    by (simp add: push_stage1_eq [OF assms(1)] y s2_emit_eq ph2) (simp add: zero_history_def)
  show "fst (snd (push_stage1 st (0, 0) out cap p))
           = (\<lambda>i. if p \<le> i \<and> i < snd (snd (push_stage1 st (0, 0) out cap p)) then (0, 0) else out i)"
    using rng
    by (auto simp: push_stage1_eq [OF assms(1)] y s2_emit_eq ph2 y2 fun_eq_iff)
qed

lemma process_loop_zero:
  fixes st :: "'a::semiring_0 dsp_resampler"
  assumes "resampler_inv st" "zero_history st"
  shows "fst (snd (process_loop st (replicate n (0, 0)) out cap p))
           = (\<lambda>i. if p \<le> i \<and> i < snd (snd (process_loop st (replicate n (0, 0)) out cap p))
                   then (0, 0) else out i)
         \<and> p \<le> snd (snd (process_loop st (replicate n (0, 0)) out cap p))"
  using assms
proof (induction n arbitrary: st out p)
  case 0
  then show ?case by (auto simp: fun_eq_iff)
next
  case (Suc n)
  obtain st' out' p' where step: "push_stage1 st (0, 0) out cap p = (st', out', p')"
    by (cases "push_stage1 st (0, 0) out cap p")
  from push_stage1_inv [OF Suc.prems(1), of "(0, 0)" out cap p] step have inv': "resampler_inv st'"
    by simp
  from push_stage1_zero [OF Suc.prems, of out cap p] step
  have z': "zero_history st'" and out': "out' = (\<lambda>i. if p \<le> i \<and> i < p' then (0, 0) else out i)"
    by simp_all
  from push_stage1_ctl(3) [OF Suc.prems(1), of "(0, 0)" out cap p] step have mono: "p \<le> p'"
    by (simp split: if_splits)
  show ?case
  proof (cases "cap \<le> p'")
    case True
    with step out' mono show ?thesis by simp
  next
    case False
    with step have unfold: "process_loop st (replicate (Suc n) (0, 0)) out cap p
        = process_loop st' (replicate n (0, 0)) out' cap p'" by simp
    from Suc.IH [OF inv' z', of out' p'] mono show ?thesis
      unfolding unfold by (auto simp: out' fun_eq_iff)
  qed
qed

lemma blank_storage_shapes: "array_shapes blank_storage"
  by (simp add: array_shapes_def blank_storage_def list_all_iff)

lemma run_calls_inv:
  "resampler_inv st \<Longrightarrow> resampler_inv (run_calls st calls)"
proof (induction calls arbitrary: st)
  case Nil
  then show ?case by simp
next
  case (Cons c calls)
  show ?case
  proof (cases c)
    case Reset
    from Cons.prems have "array_shapes st"
      by (simp add: resampler_inv_def)
    then have "resampler_inv (reset st)"
      by (rule reset_inv)
    with Cons.IH Reset show ?thesis by simp
  next
    case (Process ins out cap)
    from Cons.prems have "resampler_inv (fst (process st ins out cap))"
      by (simp add: process_def process_loop_inv)
    with Cons.IH Process show ?thesis by simp
  qed
qed

lemma double_stored_nth:
  assumes "take n h = drop n h" "length h = 2 * n" "k < n"
  shows "h ! k = h ! (k + n)"
proof -
  from assms(3) have "h ! k = take n h ! k" by simp
  also from assms(1) have "\<dots> = drop n h ! k" by (rule arg_cong)
  also from assms(2,3) have "\<dots> = h ! (k + n)" by (simp add: add.commute)
  finally show ?thesis .
qed

lemma process_trace_inv:
  "resampler_inv st \<Longrightarrow> list_all resampler_inv (process_trace st ins out cap p)"
proof (induction ins arbitrary: st out p)
  case Nil
  then show ?case by simp
next
  case (Cons x ins)
  obtain st' out' p' where step: "push_stage1 st x out cap p = (st', out', p')"
    by (cases "push_stage1 st x out cap p")
  with push_stage1_inv [OF Cons.prems, of x out cap p] have "resampler_inv st'" by simp
  with Cons.IH [of st' out' p'] step show ?case by simp
qed

lemma process_trace_last:
  "ins \<noteq> [] \<Longrightarrow> last (process_trace st ins out cap p) = fst (process_loop st ins out cap p)"
proof (induction ins arbitrary: st out p)
  case Nil
  then show ?case by simp
next
  case (Cons x ins)
  obtain st' out' p' where step: "push_stage1 st x out cap p = (st', out', p')"
    by (cases "push_stage1 st x out cap p")
  show ?case
  proof (cases "cap \<le> p' \<or> ins = []")
    case True
    with step show ?thesis by auto
  next
    case False
    then obtain y ys where "ins = y # ys" by (cases ins) auto
    with False step Cons.IH [of st' out' p'] show ?thesis
      by (simp split: prod.splits)
  qed
qed

lemma inv_double_storage: "resampler_inv st \<Longrightarrow> double_storage st"
  unfolding double_storage_def
proof (intro conjI ballI)
  fix k :: nat assume "resampler_inv st" "k \<in> {0..<61}"
  then show "s1_history st ! k = s1_history st ! (k + 61)"
    by (intro double_stored_nth) (simp_all add: resampler_inv_def array_shapes_def)
next
  fix k :: nat assume "resampler_inv st" "k \<in> {0..<57}"
  then show "s2_history st ! k = s2_history st ! (k + 57)"
    by (intro double_stored_nth) (simp_all add: resampler_inv_def array_shapes_def)
qed

lemma push_stage1_frame:
  assumes "push_stage1 st x out cap p = (st', out', p')"
  shows "p \<le> p' \<and> (p \<le> cap \<longrightarrow> p' \<le> cap) \<and> (\<forall>i. \<not> (p \<le> i \<and> i < p') \<longrightarrow> out' i = out i)"
proof (cases "5 \<le> s1_index st + 1")
  case True
  with assms s2_emit_frame show ?thesis
    unfolding push_stage1_emit [OF True] push_stage2_eq by blast
next
  case False
  with assms show ?thesis
    by (simp add: push_stage1_keep)
qed

lemma process_loop_frame:
  "process_loop st ins out cap p = (st', out', p') \<Longrightarrow>
   p \<le> p' \<and> (p \<le> cap \<longrightarrow> p' \<le> cap) \<and> (\<forall>i. \<not> (p \<le> i \<and> i < p') \<longrightarrow> out' i = out i)"
proof (induction ins arbitrary: st out p)
  case Nil
  then show ?case by simp
next
  case (Cons x ins)
  obtain st1 out1 p1 where step: "push_stage1 st x out cap p = (st1, out1, p1)"
    by (cases "push_stage1 st x out cap p")
  note f1 = push_stage1_frame [OF step]
  show ?case
  proof (cases "cap \<le> p1")
    case True
    with step Cons.prems f1 show ?thesis by simp
  next
    case False
    with step Cons.prems have "process_loop st1 ins out1 cap p1 = (st', out', p')" by simp
    from Cons.IH [OF this] f1 show ?thesis by auto
  qed
qed

lemma process_loop_discards:
  "ins \<noteq> [] \<Longrightarrow> cap \<le> snd (snd (process_loop st ins out cap p)) \<Longrightarrow>
   process_loop st (ins @ rest) out cap p = process_loop st ins out cap p"
proof (induction ins arbitrary: st out p)
  case Nil
  then show ?case by simp
next
  case (Cons x ins)
  obtain st1 out1 p1 where step: "push_stage1 st x out cap p = (st1, out1, p1)"
    by (cases "push_stage1 st x out cap p")
  show ?case
  proof (cases "cap \<le> p1")
    case True
    with step show ?thesis by simp
  next
    case False
    show ?thesis
    proof (cases ins)
      case Nil
      with False step Cons.prems show ?thesis by simp
    next
      case (Cons y ys)
      with False step Cons.prems Cons.IH [of st1 out1 p1] show ?thesis by simp
    qed
  qed
qed

lemma reset_zero_history: "zero_history (reset st)"
  by (simp add: zero_history_def reset_def)

lemma reset_fields: "s1_index (reset st) = 0" "s2_phase_state (reset st) = 0"
  by (simp_all add: reset_def)

lemma emitted_from_reset: "emitted 0 0 N = int ((13 * (N div 5) + 23) div 24)"
  by (simp add: emitted_def zdiv_int)

lemma count_bounds:
  fixes N :: nat
  defines "n \<equiv> (13 * (N div 5) + 23) div 24"
  shows "13 * N \<le> 120 * n + 52" and "120 * n \<le> 13 * N + 115"
proof -
  have m1: "5 * (N div 5) \<le> N" and m2: "N < 5 * (N div 5) + 5"
    by simp_all
  have c1: "24 * n \<le> 13 * (N div 5) + 23"
    unfolding n_def by simp
  have c2: "13 * (N div 5) + 23 < 24 * n + 24"
    unfolding n_def using dividend_less_times_div [of 24 "13 * (N div 5) + 23"] by simp
  from m2 c2 show "13 * N \<le> 120 * n + 52" by linarith
  from m1 c1 show "120 * n \<le> 13 * N + 115" by linarith
qed

lemma count_below_cap: "(13 * (N div 5) + 23) div 24 \<le> (13 * N + 119) div (120::nat)"
proof -
  from count_bounds(2) [of N] have "(13 * (N div 5) + 23) div 24 * 120 \<le> 13 * N + 119"
    by simp
  then show ?thesis
    by (simp add: less_eq_div_iff_mult_less_eq)
qed

lemma fold_update_rev_nth_Suc:
  assumes "length r = Suc m" "n \<le> Suc m" "j \<le> m"
  shows "fold (\<lambda>t row. row[m - t := g t]) [0..<n] r ! j = (if m - j < n then g (m - j) else r ! j)"
  using fold_update_rev_nth [of n r j g] assms by simp

lemma ctor_s1_coeffs_rev_eq:
  assumes "array_shapes raw"
  shows "s1_coeffs_rev (dsp_resampler_ctor f32 raw) = rev (S1_COEFFS f32)"
proof (rule nth_equalityI)
  from assms show "length (s1_coeffs_rev (dsp_resampler_ctor f32 raw)) = length (rev (S1_COEFFS f32))"
    by (simp add: ctor_s1_coeffs_rev fold_update_length array_shapes_def S1_COEFFS_length)
next
  fix i assume "i < length (s1_coeffs_rev (dsp_resampler_ctor f32 raw))"
  with assms have i: "i < 61"
    by (simp add: ctor_s1_coeffs_rev fold_update_length array_shapes_def)
  with assms have "s1_coeffs_rev (dsp_resampler_ctor f32 raw) ! i = S1_COEFFS f32 ! (60 - i)"
    by (simp add: ctor_s1_coeffs_rev fold_update_fwd_nth array_shapes_def)
  with i show "s1_coeffs_rev (dsp_resampler_ctor f32 raw) ! i = rev (S1_COEFFS f32) ! i"
    by (simp add: rev_nth S1_COEFFS_length)
qed

lemma push_stage1_coeffs:
  "s1_coeffs_rev (fst (push_stage1 st x out cap p)) = s1_coeffs_rev st \<and>
   s2_coeffs_poly (fst (push_stage1 st x out cap p)) = s2_coeffs_poly st"
proof (cases "5 \<le> s1_index st + 1")
  case True
  let ?st2 = "s2_store ((s1_store st x)\<lparr>s1_index := 0\<rparr>)
       (convolve (s1_history (s1_store st x)) (nat (s1_head (s1_store st x))) (s1_coeffs_rev st) 61)"
  obtain st' out' p' where r: "s2_emit ?st2 out cap p = (st', out', p')"
    by (cases "s2_emit ?st2 out cap p")
  from s2_emit_frame [OF r] have "st' = ?st2\<lparr>s2_phase_state := s2_phase_state st'\<rparr>" by simp
  then have "s1_coeffs_rev st' = s1_coeffs_rev ?st2" "s2_coeffs_poly st' = s2_coeffs_poly ?st2"
    by (metis dsp_resampler.select_convs dsp_resampler.surjective dsp_resampler.update_convs)+
  with r show ?thesis
    by (simp add: push_stage1_emit [OF True] push_stage2_eq s1_store_def s2_store_def)
next
  case False
  then show ?thesis
    by (simp add: push_stage1_keep s1_store_def)
qed

lemma process_loop_coeffs:
  "s1_coeffs_rev (fst (process_loop st ins out cap p)) = s1_coeffs_rev st \<and>
   s2_coeffs_poly (fst (process_loop st ins out cap p)) = s2_coeffs_poly st"
proof (induction ins arbitrary: st out p)
  case Nil
  then show ?case by simp
next
  case (Cons x ins)
  obtain st1 out1 p1 where step: "push_stage1 st x out cap p = (st1, out1, p1)"
    by (cases "push_stage1 st x out cap p")
  with push_stage1_coeffs [of st x out cap p] Cons.IH [of st1 out1 p1] show ?case
    by simp
qed

lemma run_calls_coeffs:
  "s1_coeffs_rev (run_calls st calls) = s1_coeffs_rev st \<and>
   s2_coeffs_poly (run_calls st calls) = s2_coeffs_poly st"
proof (induction calls arbitrary: st)
  case Nil
  then show ?case by simp
next
  case (Cons c calls)
  show ?case
  proof (cases c)
    case Reset
    with Cons.IH [of "reset st"] show ?thesis by (simp add: reset_def)
  next
    case (Process ins out cap)
    with Cons.IH [of "fst (process st ins out cap)"] process_loop_coeffs [of st ins out cap 0]
    show ?thesis by (simp add: process_def)
  qed
qed

lemma convolve_dot_product:
  assumes "off + n \<le> length hist" "n \<le> length c"
  shows "convolve hist off c n =
           (dot_product (map fst (take n (drop off hist))) (take n c),
            dot_product (map snd (take n (drop off hist))) (take n c))"
  using assms
proof (induction n)
  case 0
  then show ?case by (simp add: convolve_def dot_product_def)
next
  case (Suc n)
  then have IH: "convolve hist off c n =
           (dot_product (map fst (take n (drop off hist))) (take n c),
            dot_product (map snd (take n (drop off hist))) (take n c))"
    by simp
  from Suc.prems have t1: "take (Suc n) (drop off hist) = take n (drop off hist) @ [hist ! (off + n)]"
    by (simp add: take_Suc_conv_app_nth)
  from Suc.prems have t2: "take (Suc n) c = take n c @ [c ! n]"
    by (simp add: take_Suc_conv_app_nth)
  from Suc.prems have len: "length (take n (drop off hist)) = length (take n c)"
    by simp
  have "convolve hist off c (Suc n) =
      (fst (convolve hist off c n) + fst (hist ! (off + n)) * (c ! n),
       snd (convolve hist off c n) + snd (hist ! (off + n)) * (c ! n))"
    by (simp add: convolve_def split_beta)
  with IH len show ?case
    unfolding t1 t2 by (simp add: dot_product_def)
qed


section \<open>Lemmas on the source adapter\<close>

lemma convert_batch_take:
  "convert_batch f32 scale chunk count batch
     = convert_batch f32 scale (take (BATCH_SIZE - count) chunk) count batch"
proof (induction chunk arbitrary: count batch)
  case Nil
  then show ?case by simp
next
  case (Cons s chunk)
  show ?case
  proof (cases "count < BATCH_SIZE")
    case True
    then obtain d where d: "BATCH_SIZE - count = Suc d" "BATCH_SIZE - Suc count = d"
      by (cases "BATCH_SIZE - count") auto
    with True Cons.IH [of "Suc count" "batch[count := convert_sample f32 scale s]"]
    show ?thesis by simp
  next
    case False
    then show ?thesis by simp
  qed
qed

lemma convert_batch_result:
  assumes "count \<le> BATCH_SIZE" "BATCH_SIZE \<le> length batch"
  shows "snd (convert_batch f32 scale chunk count batch) = min (count + length chunk) BATCH_SIZE
       \<and> length (fst (convert_batch f32 scale chunk count batch)) = length batch
       \<and> take (snd (convert_batch f32 scale chunk count batch))
              (fst (convert_batch f32 scale chunk count batch))
           = take count batch @ map (convert_sample f32 scale) (take (BATCH_SIZE - count) chunk)"
  using assms
proof (induction chunk arbitrary: count batch)
  case Nil
  then show ?case by simp
next
  case (Cons s chunk)
  show ?case
  proof (cases "count < BATCH_SIZE")
    case True
    then obtain d where d: "BATCH_SIZE - count = Suc d" "BATCH_SIZE - Suc count = d"
      by (cases "BATCH_SIZE - count") auto
    let ?b = "batch[count := convert_sample f32 scale s]"
    from True Cons.prems have "Suc count \<le> BATCH_SIZE" and "BATCH_SIZE \<le> length ?b"
      and "count < length batch"
      by simp_all
    note ih = Cons.IH [OF \<open>Suc count \<le> BATCH_SIZE\<close> \<open>BATCH_SIZE \<le> length ?b\<close>]
    have IH1: "snd (convert_batch f32 scale chunk (Suc count) ?b) = min (Suc count + length chunk) BATCH_SIZE"
      using ih by (rule conjunct1)
    have IH2: "length (fst (convert_batch f32 scale chunk (Suc count) ?b)) = length ?b"
      using ih by (rule conjunct2 [THEN conjunct1])
    have IH3: "take (snd (convert_batch f32 scale chunk (Suc count) ?b))
            (fst (convert_batch f32 scale chunk (Suc count) ?b))
         = take (Suc count) ?b @ map (convert_sample f32 scale) (take (BATCH_SIZE - Suc count) chunk)"
      using ih by (rule conjunct2 [THEN conjunct2])
    have step: "convert_batch f32 scale (s # chunk) count batch
        = convert_batch f32 scale chunk (Suc count) ?b"
      using True by simp
    from \<open>count < length batch\<close>
    have t: "take (Suc count) ?b = take count batch @ [convert_sample f32 scale s]"
      by (simp add: take_Suc_conv_app_nth)
    show ?thesis
      unfolding step IH3 t using IH1 IH2 d by simp
  next
    case False
    with Cons.prems show ?thesis by simp
  qed
qed

lemma worker_dsp_take:
  "worker_dsp f32 s chunk out_buf = worker_dsp f32 s (take BATCH_SIZE chunk) out_buf"
  unfolding worker_dsp_def using convert_batch_take [of f32 _ chunk 0 "m_batch_buffer s"]
  by simp

lemma convert_batch_count:
  "count \<le> BATCH_SIZE \<Longrightarrow>
   snd (convert_batch f32 scale chunk count batch) = min (count + length chunk) BATCH_SIZE"
  by (induction chunk arbitrary: count batch) auto

lemma worker_dsp_fields:
  assumes "worker_dsp f32 s chunk out_buf = (s', out, produced)"
  shows "cb s' = cb s" and "m_overflow_count s' = m_overflow_count s" and "streaming s' = streaming s"
    and "produced \<le> BATCH_SIZE"
proof -
  obtain batch count where c: "convert_batch f32 (f32 (1 / 2048)) chunk 0 (m_batch_buffer s) = (batch, count)"
    by (cases "convert_batch f32 (f32 (1 / 2048)) chunk 0 (m_batch_buffer s)")
  obtain r out1 n where p: "process (m_resampler s) (take count batch) out_buf BATCH_SIZE = (r, out1, n)"
    by (cases "process (m_resampler s) (take count batch) out_buf BATCH_SIZE")
  from assms c p have s': "s' = s\<lparr>m_batch_buffer := batch, m_resampler := r\<rparr>" and n: "produced = n"
    by (simp_all add: worker_dsp_def)
  from s' show "cb s' = cb s" and "m_overflow_count s' = m_overflow_count s" and "streaming s' = streaming s"
    by simp_all
  from p process_loop_frame [of "m_resampler s" "take count batch" out_buf BATCH_SIZE 0 r out1 n] n
  show "produced \<le> BATCH_SIZE"
    by (simp add: process_def)
qed

lemma cb_write_le: "cb_write b src = (b', written) \<Longrightarrow> written \<le> length src"
  by (auto simp: cb_write_def Let_def split: if_splits)

lemma cb_write_items:
  "cb_write b src = (b', written) \<Longrightarrow> \<not> m_overwrite b \<Longrightarrow> items b' = items b @ take written src"
  by (auto simp: cb_write_def Let_def split: if_splits)

lemma worker_dsp_five:
  fixes s :: "'a::{zero,plus,times} iio_source"
  assumes "resampler_inv (m_resampler s)" and "s1_index (m_resampler s) = 0"
    and "s2_phase_state (m_resampler s) = 0" and "length (m_batch_buffer s) = BATCH_SIZE"
  shows "snd (snd (worker_dsp f32 s (replicate 5 x) out_buf)) = 1"
proof -
  obtain batch count where c: "convert_batch f32 (f32 (1 / 2048)) (replicate 5 x) 0
        (m_batch_buffer s) = (batch, count)"
    by (cases "convert_batch f32 (f32 (1 / 2048)) (replicate 5 x) 0 (m_batch_buffer s)")
  from convert_batch_result [of 0 "m_batch_buffer s" f32 "f32 (1 / 2048)" "replicate 5 x"] c assms(4)
  have "count = 5" "length batch = BATCH_SIZE"
    by (simp_all add: BATCH_SIZE_def)
  then have len: "length (take count batch) = 5"
    by (simp add: BATCH_SIZE_def)
  have e: "emitted (s1_index (m_resampler s)) (s2_phase_state (m_resampler s))
      (length (take count batch)) = 1"
    unfolding len by (simp add: assms(2,3) emitted_def)
  have "int 0 + emitted (s1_index (m_resampler s)) (s2_phase_state (m_resampler s))
      (length (take count batch)) < int BATCH_SIZE"
    unfolding e by (simp add: BATCH_SIZE_def)
  from process_loop_count [OF assms(1) this, of out_buf]
  have "snd (snd (process (m_resampler s) (take count batch) out_buf BATCH_SIZE)) = 1"
    unfolding e by (simp add: process_def)
  with c show ?thesis
    by (simp add: worker_dsp_def split_beta)
qed

lemma opened_source_resampler:
  "resampler_inv (m_resampler (opened_source f32))"
  "s1_index (m_resampler (opened_source f32)) = 0"
  "s2_phase_state (m_resampler (opened_source f32)) = 0"
  "length (m_batch_buffer (opened_source f32)) = BATCH_SIZE"
  by (simp_all add: opened_source_def reset_inv ctor_shapes blank_storage_shapes reset_fields)

lemma fill_loop_done:
  "fill_loop f32 w events n = Done (w', exit) \<Longrightarrow>
   \<exists>k\<le>length events. w' = foldl (apply_event f32) w (take k events) \<and>
     fill_check w' n = (if exit then Return_Exit else Break)"
proof (induction events arbitrary: w)
  case Nil
  then show ?case by (cases "fill_check w n") auto
next
  case (Cons ev events)
  show ?case
  proof (cases "fill_check w n")
    case Wait
    with Cons.prems have "fill_loop f32 (apply_event f32 w ev) events n = Done (w', exit)"
      by simp
    from Cons.IH [OF this] obtain k where k: "k \<le> length events"
      "w' = foldl (apply_event f32) (apply_event f32 w ev) (take k events)"
      "fill_check w' n = (if exit then Return_Exit else Break)"
      by blast
    then have "Suc k \<le> length (ev # events) \<and> w' = foldl (apply_event f32) w (take (Suc k) (ev # events))
        \<and> fill_check w' n = (if exit then Return_Exit else Break)"
      by simp
    then show ?thesis by blast
  next
    case Return_Exit
    with Cons.prems have "w' = w" "exit" by simp_all
    with Return_Exit have "0 \<le> length (ev # events) \<and> w' = foldl (apply_event f32) w (take 0 (ev # events))
        \<and> fill_check w' n = (if exit then Return_Exit else Break)"
      by simp
    then show ?thesis by blast
  next
    case Break
    with Cons.prems have "w' = w" "\<not> exit" by simp_all
    with Break have "0 \<le> length (ev # events) \<and> w' = foldl (apply_event f32) w (take 0 (ev # events))
        \<and> fill_check w' n = (if exit then Return_Exit else Break)"
      by simp
    then show ?thesis by blast
  next
    case Null_Deref
    with Cons.prems show ?thesis by simp
  qed
qed

lemma fill_check_exit: "fill_check w n = Return_Exit \<longleftrightarrow> g_kal_exit_req w"
  by (simp add: fill_check_def split: option.splits)

lemma fill_check_break:
  "fill_check w n = Break \<Longrightarrow> \<not> g_kal_exit_req w \<and> cb (source w) \<noteq> None"
  by (auto simp: fill_check_def split: option.splits if_splits)

lemma ensure_started_cb: "cb (source (ensure_started create_ok w)) = cb (source w)"
  by (simp add: ensure_started_def start_def Let_def)

lemma ensure_started_exit: "g_kal_exit_req (ensure_started create_ok w) = g_kal_exit_req w"
  by (simp add: ensure_started_def)

lemma fill_loop_exit: "g_kal_exit_req w \<Longrightarrow> fill_loop f32 w events n = Done (w, True)"
  by (cases events) (simp_all add: fill_check_def)

lemma worker_iteration_cb:
  "cb s \<noteq> None \<Longrightarrow> cb (worker_iteration f32 s chunk out_buf lock_ok) \<noteq> None"
proof -
  assume a: "cb s \<noteq> None"
  obtain s' out produced where r: "worker_dsp f32 s chunk out_buf = (s', out, produced)"
    by (cases "worker_dsp f32 s chunk out_buf")
  from worker_dsp_fields(1) [OF r] a have "cb s' \<noteq> None" by simp
  then have "cb (worker_handoff s' out produced lock_ok) \<noteq> None"
    by (auto simp: worker_handoff_def split: prod.splits)
  with r show ?thesis by (simp add: worker_iteration_def)
qed

lemma apply_event_cb:
  "cb (source w) \<noteq> None \<Longrightarrow> cb (source (apply_event f32 w ev)) \<noteq> None"
  by (cases ev) (simp_all add: worker_iteration_cb)

lemma fill_loop_no_fault:
  "cb (source w) \<noteq> None \<Longrightarrow> fill_loop f32 w events n \<noteq> Fault"
proof (induction events arbitrary: w)
  case Nil
  then show ?case by (auto simp: fill_check_def split: if_splits)
next
  case (Cons ev events)
  from Cons.prems have "fill_check w n \<noteq> Null_Deref"
    by (auto simp: fill_check_def split: if_splits)
  with Cons.IH [OF apply_event_cb [OF Cons.prems, of f32 ev]] show ?case
    by (cases "fill_check w n") simp_all
qed

lemma fill_no_fault: "fill f32 create_ok events w n overruns \<noteq> Fault"
proof (cases "cb (source w)")
  case None
  then show ?thesis by (simp add: fill_def)
next
  case (Some b)
  then have "cb (source (ensure_started create_ok w)) \<noteq> None"
    by (simp add: ensure_started_cb)
  from fill_loop_no_fault [OF this, of f32 events n] Some show ?thesis
    by (cases "fill_loop f32 (ensure_started create_ok w) events n")
       (auto simp: fill_def split: bool.splits option.splits if_splits)
qed


lemma worker_dsp_process:
  assumes "length (m_batch_buffer s) = BATCH_SIZE"
  shows "worker_dsp f32 s chunk out_buf =
     (case process (m_resampler s)
             (map (convert_sample f32 (f32 (1 / 2048))) (take BATCH_SIZE chunk)) out_buf BATCH_SIZE of
        (r, out, produced) \<Rightarrow>
          (s\<lparr>m_batch_buffer := fst (convert_batch f32 (f32 (1 / 2048)) chunk 0 (m_batch_buffer s)),
             m_resampler := r\<rparr>, out, produced))"
proof -
  have a: "0 \<le> BATCH_SIZE" by simp
  from assms have b: "BATCH_SIZE \<le> length (m_batch_buffer s)" by simp
  from convert_batch_result [OF a b, of f32 "f32 (1 / 2048)" chunk, THEN conjunct2, THEN conjunct2]
  have "take (snd (convert_batch f32 (f32 (1 / 2048)) chunk 0 (m_batch_buffer s)))
             (fst (convert_batch f32 (f32 (1 / 2048)) chunk 0 (m_batch_buffer s)))
          = map (convert_sample f32 (f32 (1 / 2048))) (take BATCH_SIZE chunk)"
    by simp
  then show ?thesis
    by (simp add: worker_dsp_def split_beta Let_def)
qed

lemma events_keep_cb:
  "cb (source w) \<noteq> None \<Longrightarrow> cb (source (foldl (apply_event f32) w evs)) \<noteq> None"
proof (induction evs arbitrary: w)
  case Nil
  then show ?case by simp
next
  case (Cons ev evs)
  from Cons.IH [OF apply_event_cb [OF Cons.prems, of f32 ev]] show ?case by simp
qed

lemma fill_loop_wakes:
  assumes "k \<le> length events"
    and "\<forall>j<k. fill_check (foldl (apply_event f32) w (take j events)) n = Wait"
    and "fill_check (foldl (apply_event f32) w (take k events)) n \<noteq> Wait"
    and "cb (source w) \<noteq> None"
  shows "fill_loop f32 w events n =
           Done (foldl (apply_event f32) w (take k events),
                 g_kal_exit_req (foldl (apply_event f32) w (take k events)))"
  using assms
proof (induction events arbitrary: w k)
  case Nil
  then have c: "fill_check w n \<noteq> Wait" "fill_check w n \<noteq> Null_Deref"
    by (auto simp: fill_check_def split: if_splits)
  then show ?case
    by (cases "fill_check w n") (auto simp: fill_check_def split: if_splits option.splits)
next
  case (Cons ev events)
  show ?case
  proof (cases k)
    case 0
    with Cons.prems have c: "fill_check w n \<noteq> Wait" "fill_check w n \<noteq> Null_Deref"
      by (auto simp: fill_check_def split: if_splits)
    with 0 show ?thesis
      by (cases "fill_check w n") (auto simp: fill_check_def split: if_splits option.splits)
  next
    case (Suc k')
    with Cons.prems(2) have w0: "fill_check w n = Wait"
      by (auto dest: spec [of _ 0])
    from Suc Cons.prems(1) have k': "k' \<le> length events" by simp
    have "\<forall>j<k'. fill_check (foldl (apply_event f32) (apply_event f32 w ev) (take j events)) n = Wait"
    proof (intro allI impI)
      fix j assume "j < k'"
      with Suc have "Suc j < k" by simp
      with Cons.prems(2) have "fill_check (foldl (apply_event f32) w (take (Suc j) (ev # events))) n = Wait"
        by blast
      then show "fill_check (foldl (apply_event f32) (apply_event f32 w ev) (take j events)) n = Wait"
        by simp
    qed
    moreover from Cons.prems(3) Suc
    have "fill_check (foldl (apply_event f32) (apply_event f32 w ev) (take k' events)) n \<noteq> Wait"
      by simp
    moreover from Cons.prems(4) have "cb (source (apply_event f32 w ev)) \<noteq> None"
      by (rule apply_event_cb)
    ultimately have "fill_loop f32 (apply_event f32 w ev) events n =
           Done (foldl (apply_event f32) (apply_event f32 w ev) (take k' events),
                 g_kal_exit_req (foldl (apply_event f32) (apply_event f32 w ev) (take k' events)))"
      using k' by (intro Cons.IH)
    with w0 Suc show ?thesis by simp
  qed
qed

lemma fill_loop_blocked:
  assumes "\<forall>j\<le>length events. fill_check (foldl (apply_event f32) w (take j events)) n = Wait"
  shows "fill_loop f32 w events n = Blocked"
  using assms
proof (induction events arbitrary: w)
  case Nil
  then show ?case by simp
next
  case (Cons ev events)
  from Cons.prems have w0: "fill_check w n = Wait"
    by (auto dest: spec [of _ 0])
  have "\<forall>j\<le>length events. fill_check (foldl (apply_event f32) (apply_event f32 w ev) (take j events)) n = Wait"
  proof (intro allI impI)
    fix j assume "j \<le> length events"
    then have "Suc j \<le> length (ev # events)" by simp
    with Cons.prems have "fill_check (foldl (apply_event f32) w (take (Suc j) (ev # events))) n = Wait"
      by blast
    then show "fill_check (foldl (apply_event f32) (apply_event f32 w ev) (take j events)) n = Wait"
      by simp
  qed
  with Cons.IH w0 show ?case by simp
qed

lemma fill_check_wait:
  "fill_check w n = Wait \<longleftrightarrow>
     \<not> g_kal_exit_req w \<and> streaming (source w) \<and>
     (\<exists>b. cb (source w) = Some b \<and> data_available b < n)"
  by (auto simp: fill_check_def split: option.splits if_splits)

lemma opened_source_fields:
  "cb (opened_source f32) = Some \<lparr>items = [], m_buf_len = 262144, m_overwrite = False\<rparr>"
  "streaming (opened_source f32)"
  "m_overflow_count (opened_source f32) = 0"
  by (simp_all add: opened_source_def)

lemma opened_worker_pass:
  fixes f32 :: "real \<Rightarrow> 'a::{zero,plus,times}"
  shows "\<exists>b'. cb (worker_iteration f32 (opened_source f32) (replicate 5 x) out_buf True) = Some b' \<and>
           data_available b' = 1"
    and "streaming (worker_iteration f32 (opened_source f32) (replicate 5 x) out_buf True)"
proof -
  obtain s' out produced where r: "worker_dsp f32 (opened_source f32) (replicate 5 x) out_buf = (s', out, produced)"
    by (cases "worker_dsp f32 (opened_source f32) (replicate 5 x) out_buf")
  from worker_dsp_five [OF opened_source_resampler, of f32 f32 x out_buf] r have p: "produced = 1"
    by simp
  from worker_dsp_fields [OF r] have f: "cb s' = Some \<lparr>items = [], m_buf_len = 262144, m_overwrite = False\<rparr>"
      "streaming s'"
    by (simp_all add: opened_source_fields)
  let ?w = "worker_handoff s' out produced True"
  from p f have "\<exists>b'. cb ?w = Some b' \<and> data_available b' = 1"
    by (simp add: worker_handoff_def cb_write_def data_available_def)
  moreover from p f have "streaming ?w"
    by (simp add: worker_handoff_def cb_write_def)
  ultimately show "\<exists>b'. cb (worker_iteration f32 (opened_source f32) (replicate 5 x) out_buf True) = Some b' \<and>
           data_available b' = 1"
    and "streaming (worker_iteration f32 (opened_source f32) (replicate 5 x) out_buf True)"
    using r by (simp_all add: worker_iteration_def)
qed


section \<open>The claims on the resampler\<close>

subsection \<open>C9: symmetry of the coefficient tables\<close>

text \<open>
  Claim C9. The Stage-1 table \<open>S1_COEFFS\<close> (61 entries) equals its own reverse, and the
  Stage-2 prototype \<open>S2_COEFFS_RAW\<close> (729 entries) equals its own reverse. Each stored
  constant is the image of its decimal literal under the one conversion \<open>f32\<close>, so the
  equality is that of the stored single-precision values, whatever the conversion is.
\<close>

theorem coefficient_tables_symmetric:
  "length (S1_COEFFS f32) = 61 \<and> rev (S1_COEFFS f32) = S1_COEFFS f32 \<and>
   length (S2_COEFFS_RAW f32) = 729 \<and> rev (S2_COEFFS_RAW f32) = S2_COEFFS_RAW f32"
proof (intro conjI)
  show "length (S1_COEFFS f32) = 61"
    by (rule S1_COEFFS_length)
  show "length (S2_COEFFS_RAW f32) = 729"
    by (rule S2_COEFFS_RAW_length)
  show "rev (S1_COEFFS f32) = S1_COEFFS f32"
    unfolding S1_COEFFS_def rev_map
    by (rule arg_cong [where f = "map f32"]) (simp only: rev_conv_fold fold_simps)
  show "rev (S2_COEFFS_RAW f32) = S2_COEFFS_RAW f32"
    unfolding S2_COEFFS_RAW_def rev_map
    by (rule arg_cong [where f = "map f32"]) (simp only: rev_conv_fold fold_simps)
qed

subsection \<open>C6: double storage of the histories\<close>

text \<open>
  Claim C6. After construction and after any sequence of \<open>reset\<close> and \<open>process\<close> calls,
  and after every input sample that a further \<open>process\<close> call consumes, each history
  holds its samples twice: \<open>s1_history[k] = s1_history[k + 61]\<close> for every \<open>k < 61\<close> and
  \<open>s2_history[k] = s2_history[k + 57]\<close> for every \<open>k < 57\<close>.
\<close>

theorem histories_double_stored:
  assumes "array_shapes raw"
  shows "double_storage (run_calls (dsp_resampler_ctor f32 raw) calls) \<and>
         list_all double_storage
           (process_trace (run_calls (dsp_resampler_ctor f32 raw) calls) ins out cap 0)"
proof -
  from assms have inv: "resampler_inv (run_calls (dsp_resampler_ctor f32 raw) calls)"
    by (intro run_calls_inv ctor_inv)
  from process_trace_inv [OF inv, of ins out cap 0]
  have "list_all double_storage (process_trace (run_calls (dsp_resampler_ctor f32 raw) calls) ins out cap 0)"
    by (simp add: list_all_iff inv_double_storage)
  with inv show ?thesis by (simp add: inv_double_storage)
qed

theorem histories_double_stored_witness:
  "array_shapes (blank_storage :: real dsp_resampler) \<and>
   s1_history (run_calls (dsp_resampler_ctor (\<lambda>r. r) blank_storage)
       [Process [(1, 2), (3, 4)] (\<lambda>i. (0, 0)) 8, Reset, Process [(5, 6)] (\<lambda>i. (0, 0)) 8]) ! 0
     = s1_history (run_calls (dsp_resampler_ctor (\<lambda>r. r) blank_storage)
       [Process [(1, 2), (3, 4)] (\<lambda>i. (0, 0)) 8, Reset, Process [(5, 6)] (\<lambda>i. (0, 0)) 8]) ! (0 + 61) \<and>
   s2_history (run_calls (dsp_resampler_ctor (\<lambda>r. r) blank_storage)
       [Process [(1, 2), (3, 4)] (\<lambda>i. (0, 0)) 8, Reset, Process [(5, 6)] (\<lambda>i. (0, 0)) 8]) ! 56
     = s2_history (run_calls (dsp_resampler_ctor (\<lambda>r. r) blank_storage)
       [Process [(1, 2), (3, 4)] (\<lambda>i. (0, 0)) 8, Reset, Process [(5, 6)] (\<lambda>i. (0, 0)) 8]) ! (56 + 57)"
  using histories_double_stored [where raw = "blank_storage :: real dsp_resampler" and ?f32.0 = "\<lambda>r. r"
      and calls = "[Process [(1, 2), (3, 4)] (\<lambda>i. (0, 0)) 8, Reset, Process [(5, 6)] (\<lambda>i. (0, 0)) 8]"
      and ins = "[]" and out = "\<lambda>i. (0, 0)" and cap = 0, OF blank_storage_shapes]
    blank_storage_shapes
  by (simp add: double_storage_def del: run_calls.simps)

subsection \<open>C5: range of the phase accumulator\<close>

text \<open>
  Claim C5 says that \<open>s2_phase_state\<close> lies in \<open>[0, 13)\<close> between consumed input samples.
  It does not: \<open>push_stage2\<close> adds 24 for an emitted sample and subtracts 13 at its end, so
  the step that starts with phase 11 ends with phase 22. After construction and ten input
  samples (two Stage-2 steps) the phase is 22.
\<close>

theorem phase_state_below_13_counterexample:
  "\<not> s2_phase_state (run_calls (dsp_resampler_ctor (\<lambda>r. r) blank_storage)
         [Process (replicate 10 (0, 0)) (\<lambda>i. (0, 0)) 4]) < 13"
proof -
  let ?st = "dsp_resampler_ctor (\<lambda>r. r) blank_storage :: real dsp_resampler"
  have inv: "resampler_inv ?st"
    by (rule ctor_inv [OF blank_storage_shapes])
  have e: "emitted (s1_index ?st) (s2_phase_state ?st) (length (replicate 10 (0::real, 0::real))) = 2"
    by (simp add: ctor_fields emitted_def)
  have "int 0 + emitted (s1_index ?st) (s2_phase_state ?st) (length (replicate 10 (0::real, 0::real))) < int 4"
    unfolding e by simp
  from process_loop_count [OF inv this, of "\<lambda>i. (0, 0)"]
  have "s2_phase_state (fst (process_loop ?st (replicate 10 (0, 0)) (\<lambda>i. (0, 0)) 4 0)) = 22"
    unfolding e by (simp add: ctor_fields)
  then show ?thesis by (simp add: process_def)
qed

text \<open>
  Claim C5 as amended. After construction and after any sequence of \<open>reset\<close> and
  \<open>process\<close> calls, and after every input sample that a further \<open>process\<close> call
  consumes, \<open>s2_phase_state\<close> lies in \<open>[0, 24)\<close>.
\<close>

theorem phase_state_range:
  assumes "array_shapes raw"
  shows "0 \<le> s2_phase_state (run_calls (dsp_resampler_ctor f32 raw) calls) \<and>
         s2_phase_state (run_calls (dsp_resampler_ctor f32 raw) calls) < 24 \<and>
         list_all (\<lambda>st. 0 \<le> s2_phase_state st \<and> s2_phase_state st < 24)
           (process_trace (run_calls (dsp_resampler_ctor f32 raw) calls) ins out cap 0)"
proof -
  from assms have inv: "resampler_inv (run_calls (dsp_resampler_ctor f32 raw) calls)"
    by (intro run_calls_inv ctor_inv)
  from process_trace_inv [OF inv, of ins out cap 0]
  have "list_all (\<lambda>st. 0 \<le> s2_phase_state st \<and> s2_phase_state st < 24)
           (process_trace (run_calls (dsp_resampler_ctor f32 raw) calls) ins out cap 0)"
    by (simp add: list_all_iff resampler_inv_def)
  with inv show ?thesis by (simp add: resampler_inv_def)
qed

theorem phase_state_range_witness:
  "array_shapes (blank_storage :: real dsp_resampler) \<and>
   0 \<le> s2_phase_state (run_calls (dsp_resampler_ctor (\<lambda>r. r) blank_storage)
          [Process (replicate 10 (0, 0)) (\<lambda>i. (0, 0)) 4]) \<and>
   s2_phase_state (run_calls (dsp_resampler_ctor (\<lambda>r. r) blank_storage)
          [Process (replicate 10 (0, 0)) (\<lambda>i. (0, 0)) 4]) < 24"
  using phase_state_range [where raw = "blank_storage :: real dsp_resampler" and ?f32.0 = "\<lambda>r. r"
      and calls = "[Process (replicate 10 (0, 0)) (\<lambda>i. (0, 0)) 4]"
      and ins = "[]" and out = "\<lambda>i. (0, 0)" and cap = 0, OF blank_storage_shapes] blank_storage_shapes
  by (simp del: run_calls.simps)


subsection \<open>C1: output count for a zero input\<close>

text \<open>
  Claim C1 says that, from the state left by \<open>reset\<close>, \<open>N\<close> zero samples yield
  \<open>\<lfloor>13 N / 120\<rfloor>\<close> output samples. The code emits earlier: the first Stage-2 step finds
  the phase 0, below 13, and emits. Five zero samples give one output sample where the
  claim's formula gives none; the capacity 2 meets the claim's bound
  \<open>\<lceil>5 \<cdot> 13 / 120\<rceil> + 1\<close>.
\<close>

theorem zero_input_count_counterexample:
  "(2::nat) \<ge> (5 * 13 + 119) div 120 + 1 \<and>
   snd (snd (process (reset (blank_storage :: real dsp_resampler)) (replicate 5 (0, 0)) (\<lambda>i. (0, 0)) 2))
     \<noteq> (5 * 13 + 0) div 120"
proof -
  let ?st = "reset (blank_storage :: real dsp_resampler)"
  have inv: "resampler_inv ?st"
    by (rule reset_inv [OF blank_storage_shapes])
  have e: "emitted (s1_index ?st) (s2_phase_state ?st) (length (replicate 5 (0::real, 0::real))) = 1"
    by (simp add: reset_fields emitted_def)
  have "int 0 + emitted (s1_index ?st) (s2_phase_state ?st) (length (replicate 5 (0::real, 0::real))) < int 2"
    unfolding e by simp
  from process_loop_count [OF inv this, of "\<lambda>i. (0, 0)"]
  have "snd (snd (process_loop ?st (replicate 5 (0, 0)) (\<lambda>i. (0, 0)) 2 0)) = 1"
    unfolding e by simp
  then show ?thesis by (simp add: process_def)
qed
text \<open>
  Claim C1 as amended. From the state left by \<open>reset\<close>, for every \<open>N\<close>, \<open>process\<close> on
  \<open>N\<close> zero samples with \<open>out_cap \<ge> \<lceil>13 N / 120\<rceil> + 1\<close> returns exactly
  \<open>\<lceil>13 \<lfloor>N / 5\<rfloor> / 24\<rceil>\<close> and has written zero to each of these cells of the output
  buffer. The count \<open>n\<close> obeys \<open>13 N - 52 \<le> 120 n \<le> 13 N + 115\<close>: the ratio is 13
  output samples per 120 input samples. The values are zero in any arithmetic where
  \<open>0 * c = 0\<close> and \<open>0 + 0 = 0\<close>.
\<close>

theorem zero_input_output_count:
  fixes st :: "'a::semiring_0 dsp_resampler"
  assumes "array_shapes st" and "(13 * N + 119) div 120 + 1 \<le> cap"
  shows "case process (reset st) (replicate N (0, 0)) out cap of (st', out', n) \<Rightarrow>
           n = (13 * (N div 5) + 23) div 24 \<and>
           (\<forall>i<n. out' i = (0, 0)) \<and>
           13 * N \<le> 120 * n + 52 \<and> 120 * n \<le> 13 * N + 115"
proof -
  let ?n = "(13 * (N div 5) + 23) div 24"
  obtain st' out' n where r: "process_loop (reset st) (replicate N (0, 0)) out cap 0 = (st', out', n)"
    by (cases "process_loop (reset st) (replicate N (0, 0)) out cap 0")
  have inv: "resampler_inv (reset st)"
    by (rule reset_inv [OF assms(1)])
  from assms(2) count_below_cap [of N] have "?n < cap" by linarith
  then have "int 0 + emitted (s1_index (reset st)) (s2_phase_state (reset st))
                 (length (replicate N (0::'a, 0::'a))) < int cap"
    by (simp add: reset_fields emitted_from_reset)
  from process_loop_count [OF inv this, of out] r have n: "n = ?n"
    by (simp add: reset_fields emitted_from_reset)
  from process_loop_zero [OF inv reset_zero_history, of N out cap 0] r
  have "\<forall>i<n. out' i = (0, 0)" by simp
  moreover have "13 * N \<le> 120 * ?n + 52" "120 * ?n \<le> 13 * N + 115"
    by (rule count_bounds)+
  ultimately show ?thesis using r n by (simp add: process_def)
qed
theorem zero_input_output_count_witness:
  "array_shapes (blank_storage :: real dsp_resampler) \<and> (13 * 10 + 119) div 120 + 1 \<le> (3::nat) \<and>
   (case process (reset (blank_storage :: real dsp_resampler)) (replicate 10 (0, 0)) (\<lambda>i. (1, 1)) 3 of
      (st', out', n) \<Rightarrow> n = 2 \<and> out' 0 = (0, 0) \<and> out' 1 = (0, 0))"
proof -
  have cap: "(13 * 10 + 119) div 120 + 1 \<le> (3::nat)" by simp
  from zero_input_output_count [where st = "blank_storage :: real dsp_resampler" and out = "\<lambda>i. (1, 1)",
      OF blank_storage_shapes cap]
  show ?thesis using blank_storage_shapes by (auto split: prod.splits)
qed


subsection \<open>C2: Stage 1 decimates by five\<close>

text \<open>
  Claim C2. In every state \<open>st\<close> that the object reaches, \<open>s1_coeffs_rev[i] = S1_COEFFS[60 - i]\<close>
  for every \<open>i < 61\<close>, and the decimation counter lies in \<open>[0, 5)\<close>, starting at 0 after
  \<open>reset\<close>. An input sample that finds the counter below 4 is stored and counted, and
  nothing else changes: Stage 2, the output buffer and the output count are as before.
  The input sample that finds the counter at 4, every fifth one, resets the counter and
  passes to \<open>push_stage2\<close> the dot product of the 61 history entries from the advanced
  head on with \<open>s1_coeffs_rev\<close>, real and imaginary parts each with the same taps.
\<close>

theorem stage1_decimation_and_filter:
  fixes f32 :: "real \<Rightarrow> 'a::{zero,plus,times}" and calls :: "'a call list"
    and raw :: "'a dsp_resampler"
  assumes "array_shapes raw"
  defines "st \<equiv> run_calls (dsp_resampler_ctor f32 raw) calls"
  shows "(\<forall>i<61. s1_coeffs_rev st ! i = S1_COEFFS f32 ! (60 - i)) \<and>
         0 \<le> s1_index st \<and> s1_index st < 5 \<and> s1_index (reset st) = 0 \<and>
         (s1_index st \<noteq> 4 \<longrightarrow>
            push_stage1 st x out cap p = ((s1_store st x)\<lparr>s1_index := s1_index st + 1\<rparr>, out, p)) \<and>
         (s1_index st = 4 \<longrightarrow>
            push_stage1 st x out cap p =
              push_stage2 ((s1_store st x)\<lparr>s1_index := 0\<rparr>)
                (dot_product (map fst (take 61 (drop (nat (s1_head (s1_store st x))) (s1_history (s1_store st x)))))
                   (s1_coeffs_rev st),
                 dot_product (map snd (take 61 (drop (nat (s1_head (s1_store st x))) (s1_history (s1_store st x)))))
                   (s1_coeffs_rev st))
                out cap p)"
proof -
  from assms have inv: "resampler_inv st"
    unfolding st_def by (intro run_calls_inv ctor_inv)
  have coeffs: "s1_coeffs_rev st = rev (S1_COEFFS f32)"
    unfolding st_def by (simp add: run_calls_coeffs ctor_s1_coeffs_rev_eq [OF assms(1)])
  then have "\<forall>i<61. s1_coeffs_rev st ! i = S1_COEFFS f32 ! (60 - i)"
    by (simp add: rev_nth S1_COEFFS_length)
  moreover from inv have "0 \<le> s1_index st" "s1_index st < 5"
    by (simp_all add: resampler_inv_def)
  moreover have "s1_index (reset st) = 0"
    by (simp add: reset_def)
  moreover from inv have "resampler_inv (s1_store st x)"
    by (rule s1_store_inv)
  then have "nat (s1_head (s1_store st x)) + 61 \<le> length (s1_history (s1_store st x))"
    by (auto simp: resampler_inv_def array_shapes_def)
  with coeffs have "convolve (s1_history (s1_store st x)) (nat (s1_head (s1_store st x))) (s1_coeffs_rev st) 61
      = (dot_product (map fst (take 61 (drop (nat (s1_head (s1_store st x))) (s1_history (s1_store st x)))))
                   (s1_coeffs_rev st),
         dot_product (map snd (take 61 (drop (nat (s1_head (s1_store st x))) (s1_history (s1_store st x)))))
                   (s1_coeffs_rev st))"
    by (subst convolve_dot_product) (simp_all add: S1_COEFFS_length)
  ultimately show ?thesis
    by (simp add: push_stage1_keep push_stage1_emit)
qed

theorem stage1_decimation_and_filter_witness:
  "array_shapes (blank_storage :: real dsp_resampler) \<and>
   s1_coeffs_rev (run_calls (dsp_resampler_ctor (\<lambda>r. r) blank_storage)
       [Process (replicate 4 (1, 1)) (\<lambda>i. (0, 0)) 8]) ! 0 = S1_COEFFS (\<lambda>r. r) ! (60 - 0) \<and>
   s1_index (run_calls (dsp_resampler_ctor (\<lambda>r. r) blank_storage)
       [Process (replicate 4 (1, 1)) (\<lambda>i. (0, 0)) 8]) = 4 \<and>
   push_stage1 (run_calls (dsp_resampler_ctor (\<lambda>r. r) blank_storage)
       [Process (replicate 4 (1, 1)) (\<lambda>i. (0, 0)) 8]) (1, 2) (\<lambda>i. (0, 0)) 8 0 =
     push_stage2 ((s1_store (run_calls (dsp_resampler_ctor (\<lambda>r. r) blank_storage)
         [Process (replicate 4 (1, 1)) (\<lambda>i. (0, 0)) 8]) (1, 2))\<lparr>s1_index := 0\<rparr>)
       (dot_product (map fst (take 61 (drop (nat (s1_head (s1_store (run_calls (dsp_resampler_ctor (\<lambda>r. r) blank_storage)
            [Process (replicate 4 (1, 1)) (\<lambda>i. (0, 0)) 8]) (1, 2))))
            (s1_history (s1_store (run_calls (dsp_resampler_ctor (\<lambda>r. r) blank_storage)
            [Process (replicate 4 (1, 1)) (\<lambda>i. (0, 0)) 8]) (1, 2))))))
          (s1_coeffs_rev (run_calls (dsp_resampler_ctor (\<lambda>r. r) blank_storage)
            [Process (replicate 4 (1, 1)) (\<lambda>i. (0, 0)) 8])),
        dot_product (map snd (take 61 (drop (nat (s1_head (s1_store (run_calls (dsp_resampler_ctor (\<lambda>r. r) blank_storage)
            [Process (replicate 4 (1, 1)) (\<lambda>i. (0, 0)) 8]) (1, 2))))
            (s1_history (s1_store (run_calls (dsp_resampler_ctor (\<lambda>r. r) blank_storage)
            [Process (replicate 4 (1, 1)) (\<lambda>i. (0, 0)) 8]) (1, 2))))))
          (s1_coeffs_rev (run_calls (dsp_resampler_ctor (\<lambda>r. r) blank_storage)
            [Process (replicate 4 (1, 1)) (\<lambda>i. (0, 0)) 8])))
       (\<lambda>i. (0, 0)) 8 0"
proof -
  let ?ini = "dsp_resampler_ctor (\<lambda>r. r) blank_storage :: real dsp_resampler"
  let ?cur = "run_calls ?ini [Process (replicate 4 (1, 1)) (\<lambda>i. (0, 0)) 8]"
  have inv: "resampler_inv ?ini"
    by (rule ctor_inv [OF blank_storage_shapes])
  have e: "emitted (s1_index ?ini) (s2_phase_state ?ini) (length (replicate 4 (1::real, 1::real))) = 0"
    by (simp add: ctor_fields emitted_def)
  have "int 0 + emitted (s1_index ?ini) (s2_phase_state ?ini) (length (replicate 4 (1::real, 1::real))) < int 8"
    unfolding e by simp
  from process_loop_count [OF inv this, of "\<lambda>i. (0, 0)"]
  have idx: "s1_index ?cur = 4"
    by (simp add: ctor_fields process_def)
  from stage1_decimation_and_filter [where raw = "blank_storage :: real dsp_resampler"
      and ?f32.0 = "\<lambda>r. r" and calls = "[Process (replicate 4 (1, 1)) (\<lambda>i. (0, 0)) 8]"
      and x = "(1, 2)" and out = "\<lambda>i. (0, 0)" and cap = 8 and p = 0, OF blank_storage_shapes]
    idx blank_storage_shapes
  show ?thesis by (simp del: run_calls.simps)
qed

subsection \<open>C3: layout of the polyphase bank\<close>

text \<open>
  Claim C3. After construction, for every phase \<open>p < 13\<close> and tap \<open>k < 57\<close>,
  \<open>s2_coeffs_poly[p][56 - k]\<close> is \<open>S2_COEFFS_RAW[p + 13 k]\<close> when \<open>p + 13 k < 729\<close> and
  zero otherwise.
\<close>

theorem polyphase_bank_layout:
  assumes "array_shapes raw" and "p < 13" and "k < 57"
  shows "s2_coeffs_poly (dsp_resampler_ctor f32 raw) ! p ! (56 - k)
           = (if p + 13 * k < 729 then S2_COEFFS_RAW f32 ! (p + 13 * k) else 0)"
proof -
  let ?g = "\<lambda>ph tap. if ph + tap * 13 < 729 then S2_COEFFS_RAW f32 ! (ph + tap * 13) else 0"
  let ?F = "\<lambda>ph. fold (\<lambda>tap row. row[56 - tap := ?g ph tap]) [0..<57]"
  from assms have len: "length (s2_coeffs_poly raw) = 13"
    and row: "length (s2_coeffs_poly raw ! p) = Suc 56"
    by (simp_all add: array_shapes_def list_all_length)
  from assms(2) len
  have "s2_coeffs_poly (dsp_resampler_ctor f32 raw) ! p = ?F p (s2_coeffs_poly raw ! p)"
    by (simp add: ctor_s2_coeffs_poly [OF assms(1)] fold_rows_nth [where F = ?F])
  moreover from assms(3) have "?F p (s2_coeffs_poly raw ! p) ! (56 - k) = ?g p (56 - (56 - k))"
    by (subst fold_update_rev_nth_Suc [OF row]) simp_all
  ultimately show ?thesis using assms(3)
    by (simp add: mult.commute)
qed
theorem polyphase_bank_layout_witness:
  "array_shapes (blank_storage :: real dsp_resampler) \<and>
   s2_coeffs_poly (dsp_resampler_ctor (\<lambda>r. r) blank_storage) ! 0 ! (56 - 0) = S2_COEFFS_RAW (\<lambda>r. r) ! 0 \<and>
   s2_coeffs_poly (dsp_resampler_ctor (\<lambda>r. r) blank_storage) ! 1 ! (56 - 56) = (0::real)"
  using polyphase_bank_layout [where raw = "blank_storage :: real dsp_resampler" and p = 0 and k = 0
      and ?f32.0 = "\<lambda>r. r", OF blank_storage_shapes]
    polyphase_bank_layout [where raw = "blank_storage :: real dsp_resampler" and p = 1 and k = 56
      and ?f32.0 = "\<lambda>r. r", OF blank_storage_shapes]
    blank_storage_shapes
  by simp


subsection \<open>C4: the output capacity\<close>

text \<open>
  Claim C4. For every state, input block and capacity, \<open>process\<close> returns a count of at
  most \<open>out_cap\<close> and leaves every cell of the output buffer at an index \<open>\<ge> out_cap\<close> as it
  was. Once the count has reached \<open>out_cap\<close> after some input sample, the rest of the block
  has no effect: the call returns what the call on the consumed part returns. \<open>process\<close>
  is a total function: it returns for every input.
\<close>

theorem process_respects_capacity:
  "(case process st ins out cap of (st', out', n) \<Rightarrow>
      n \<le> cap \<and> (\<forall>i. cap \<le> i \<longrightarrow> out' i = out i)) \<and>
   (ins \<noteq> [] \<and> cap \<le> snd (snd (process st ins out cap)) \<longrightarrow>
      process st (ins @ rest) out cap = process st ins out cap)"
proof -
  obtain st' out' n where r: "process_loop st ins out cap 0 = (st', out', n)"
    by (cases "process_loop st ins out cap 0")
  from process_loop_frame [OF r] have "n \<le> cap \<and> (\<forall>i. cap \<le> i \<longrightarrow> out' i = out i)"
    by auto
  with r process_loop_discards [of ins cap st out 0 rest] show ?thesis
    by (simp add: process_def)
qed
theorem process_respects_capacity_witness:
  "snd (snd (process (blank_storage :: real dsp_resampler) (replicate 10 (1, 1)) (\<lambda>i. (7, 7)) 1)) \<le> 1 \<and>
   fst (snd (process (blank_storage :: real dsp_resampler) (replicate 10 (1, 1)) (\<lambda>i. (7, 7)) 1)) 1 = (7, 7)"
  using process_respects_capacity [where st = "blank_storage :: real dsp_resampler"
      and ins = "replicate 10 (1, 1)" and out = "\<lambda>i. (7, 7)" and cap = 1 and rest = "[]"]
  by (simp add: split_beta)



section \<open>The claims on the source adapter\<close>

text \<open>
  The worker thread runs and \<open>fill\<close> waits on a source that \<open>open\<close> has opened: \<open>open\<close>
  creates the ring buffer, \<open>fill\<close> starts the worker only behind its test of \<open>cb\<close>, and
  the program deletes a source whose \<open>open\<close> fails. The claims are stated for a source
  whose ring buffer exists.
\<close>

subsection \<open>C7: accounting of the produced samples\<close>

text \<open>
  Claim C7. In every pass of the worker loop, with \<open>produced\<close> the count that \<open>process\<close>
  returns for the converted batch and \<open>out\<close> the buffer it has filled: \<open>produced\<close> is at
  most \<open>BATCH_SIZE\<close>; if \<open>try_lock\<close> succeeds and \<open>produced > 0\<close>, \<open>write\<close> is called on the
  first \<open>produced\<close> cells of \<open>out\<close> and returns \<open>written \<le> produced\<close>, the ring buffer (in
  non-overwrite mode, as \<open>open\<close> constructs it) takes the first \<open>written\<close> of them, and
  \<open>m_overflow_count\<close> grows by exactly \<open>produced - written\<close>; if \<open>try_lock\<close> fails,
  \<open>m_overflow_count\<close> grows by exactly \<open>produced\<close> and the ring buffer is as before. So
  every produced sample is written or counted. The counter is a 32-bit unsigned word.
\<close>

theorem worker_accounts_for_output:
  assumes "convert_batch f32 (f32 (1 / 2048)) chunk 0 (m_batch_buffer s) = (batch, count)"
    and "process (m_resampler s) (take count batch) out_buf BATCH_SIZE = (r, out, produced)"
    and "cb s = Some b"
    and "cb_write b (map out [0..<produced]) = (b', written)"
  shows "produced \<le> BATCH_SIZE \<and> written \<le> produced \<and>
         (\<not> m_overwrite b \<longrightarrow> items b' = items b @ map out [0..<written]) \<and>
         worker_iteration f32 s chunk out_buf True =
           (if produced = 0 then s\<lparr>m_batch_buffer := batch, m_resampler := r\<rparr>
            else s\<lparr>m_batch_buffer := batch, m_resampler := r, cb := Some b',
                   m_overflow_count := m_overflow_count s + of_nat (produced - written)\<rparr>) \<and>
         worker_iteration f32 s chunk out_buf False =
           s\<lparr>m_batch_buffer := batch, m_resampler := r,
              m_overflow_count := m_overflow_count s + of_nat produced\<rparr>"
proof -
  from assms(1,2) have dsp: "worker_dsp f32 s chunk out_buf
      = (s\<lparr>m_batch_buffer := batch, m_resampler := r\<rparr>, out, produced)"
    by (simp add: worker_dsp_def)
  from worker_dsp_fields(4) [OF dsp] have cap: "produced \<le> BATCH_SIZE" .
  from cb_write_le [OF assms(4)] have le: "written \<le> produced" by simp
  then have "take written (map out [0..<produced]) = map out [0..<written]"
    by (simp add: take_map)
  with cb_write_items [OF assms(4)] have it: "\<not> m_overwrite b \<longrightarrow> items b' = items b @ map out [0..<written]"
    by simp
  from assms(3,4) le have t: "worker_iteration f32 s chunk out_buf True =
           (if produced = 0 then s\<lparr>m_batch_buffer := batch, m_resampler := r\<rparr>
            else s\<lparr>m_batch_buffer := batch, m_resampler := r, cb := Some b',
                   m_overflow_count := m_overflow_count s + of_nat (produced - written)\<rparr>)"
    by (auto simp: worker_iteration_def dsp worker_handoff_def)
  have f: "worker_iteration f32 s chunk out_buf False =
           s\<lparr>m_batch_buffer := batch, m_resampler := r,
              m_overflow_count := m_overflow_count s + of_nat produced\<rparr>"
    by (auto simp: worker_iteration_def dsp worker_handoff_def)
  from cap le it t f show ?thesis by blast
qed
theorem worker_accounts_for_output_witness:
  "cb (opened_source (\<lambda>r. r) :: real iio_source) = Some \<lparr>items = [], m_buf_len = 262144, m_overwrite = False\<rparr> \<and>
   snd (snd (process (m_resampler (opened_source (\<lambda>r. r) :: real iio_source))
      (take (snd (convert_batch (\<lambda>r. r) (1 / 2048) (replicate 5 (0, 0)) 0 (m_batch_buffer (opened_source (\<lambda>r. r)))))
            (fst (convert_batch (\<lambda>r. r) (1 / 2048) (replicate 5 (0, 0)) 0 (m_batch_buffer (opened_source (\<lambda>r. r))))))
      (\<lambda>i. (0, 0)) BATCH_SIZE)) = 1 \<and>
   snd (cb_write \<lparr>items = [], m_buf_len = 262144, m_overwrite = False\<rparr>
        (map (fst (snd (process (m_resampler (opened_source (\<lambda>r. r) :: real iio_source))
      (take (snd (convert_batch (\<lambda>r. r) (1 / 2048) (replicate 5 (0, 0)) 0 (m_batch_buffer (opened_source (\<lambda>r. r)))))
            (fst (convert_batch (\<lambda>r. r) (1 / 2048) (replicate 5 (0, 0)) 0 (m_batch_buffer (opened_source (\<lambda>r. r))))))
      (\<lambda>i. (0, 0)) BATCH_SIZE)))
           [0..<snd (snd (process (m_resampler (opened_source (\<lambda>r. r) :: real iio_source))
      (take (snd (convert_batch (\<lambda>r. r) (1 / 2048) (replicate 5 (0, 0)) 0 (m_batch_buffer (opened_source (\<lambda>r. r)))))
            (fst (convert_batch (\<lambda>r. r) (1 / 2048) (replicate 5 (0, 0)) 0 (m_batch_buffer (opened_source (\<lambda>r. r))))))
      (\<lambda>i. (0, 0)) BATCH_SIZE))]))
     \<le> snd (snd (process (m_resampler (opened_source (\<lambda>r. r) :: real iio_source))
      (take (snd (convert_batch (\<lambda>r. r) (1 / 2048) (replicate 5 (0, 0)) 0 (m_batch_buffer (opened_source (\<lambda>r. r)))))
            (fst (convert_batch (\<lambda>r. r) (1 / 2048) (replicate 5 (0, 0)) 0 (m_batch_buffer (opened_source (\<lambda>r. r))))))
      (\<lambda>i. (0, 0)) BATCH_SIZE)) \<and>
   m_overflow_count (worker_iteration (\<lambda>r. r) (opened_source (\<lambda>r. r) :: real iio_source)
      (replicate 5 (0, 0)) (\<lambda>i. (0, 0)) False) = 1"
proof -
  let ?s = "opened_source (\<lambda>r. r) :: real iio_source"
  let ?b = "\<lparr>items = [], m_buf_len = 262144, m_overwrite = False\<rparr> :: (real \<times> real) circular_buffer"
  let ?cv = "convert_batch (\<lambda>r. r) (1 / 2048) (replicate 5 (0, 0)) 0 (m_batch_buffer ?s)"
  let ?pr = "process (m_resampler ?s) (take (snd ?cv) (fst ?cv)) (\<lambda>i. (0, 0)) BATCH_SIZE"
  let ?wr = "cb_write ?b (map (fst (snd ?pr)) [0..<snd (snd ?pr)])"
  have "snd (snd (worker_dsp (\<lambda>r. r) ?s (replicate 5 (0, 0)) (\<lambda>i. (0, 0)))) = snd (snd ?pr)"
    by (simp add: worker_dsp_def split_beta Let_def)
  with worker_dsp_five [OF opened_source_resampler, of "\<lambda>r. r" "\<lambda>r. r" "(0, 0)" "\<lambda>i. (0, 0)"]
  have one: "snd (snd ?pr) = 1" by simp
  have cv: "?cv = (fst ?cv, snd ?cv)" by simp
  have pr: "?pr = (fst ?pr, fst (snd ?pr), snd (snd ?pr))" by simp
  have c: "cb ?s = Some ?b" by (rule opened_source_fields)
  have wr: "?wr = (fst ?wr, snd ?wr)" by simp
  from worker_accounts_for_output [where ?f32.0 = "\<lambda>r. r" and s = ?s and chunk = "replicate 5 (0, 0)"
      and out_buf = "\<lambda>i. (0, 0)", simplified, OF cv pr c wr]
  have le: "snd ?wr \<le> snd (snd ?pr)"
    and ov: "m_overflow_count (worker_iteration (\<lambda>r. r) ?s (replicate 5 (0, 0)) (\<lambda>i. (0, 0)) False)
               = m_overflow_count ?s + of_nat (snd (snd ?pr))"
    by simp_all
  from ov one have "m_overflow_count (worker_iteration (\<lambda>r. r) ?s (replicate 5 (0, 0)) (\<lambda>i. (0, 0)) False) = 1"
    by (simp add: opened_source_fields)
  with c one le show ?thesis by blast
qed


subsection \<open>C8: the consumer call\<close>

text \<open>
  Claim C8. \<open>fill(n, &overruns)\<close> starts the source if \<open>streaming\<close> is false, which leaves
  the ring buffer as it is, and never dereferences a null \<open>cb\<close>. The events of the waits
  decide the rest. \<open>fill\<close> waits as long as its test finds the exit flag clear, fewer than
  \<open>n\<close> items in the ring buffer and \<open>streaming\<close> true. At the first test that finds
  otherwise, after \<open>k\<close> waits, it returns: \<open>-1\<close> if the exit flag is set or \<open>streaming\<close> is
  false, leaving the world as the start and the \<open>k\<close> events have made it and \<open>*overruns\<close>
  as it was; 0 otherwise, with \<open>m_overflow_count\<close> stored into \<open>*overruns\<close> and set to
  zero in the same step, and nothing else changed. If every test through all the events
  finds the conditions to wait, the call is still waiting. Whenever \<open>fill\<close> returns, the
  ring buffer is the one the start and the events have made: \<open>fill\<close> removes no sample.
\<close>

theorem fill_returns:
  assumes "cb (source w) = Some b"
  shows
   "cb (source (ensure_started create_ok w)) = cb (source w) \<and>
    fill f32 create_ok events w n (Some old) \<noteq> Fault \<and>
    (\<forall>k\<le>length events.
       (\<forall>j<k. fill_check (foldl (apply_event f32) (ensure_started create_ok w) (take j events)) n = Wait) \<and>
       fill_check (foldl (apply_event f32) (ensure_started create_ok w) (take k events)) n \<noteq> Wait \<longrightarrow>
       fill f32 create_ok events w n (Some old) =
         (if g_kal_exit_req (foldl (apply_event f32) (ensure_started create_ok w) (take k events)) \<or>
             \<not> streaming (source (foldl (apply_event f32) (ensure_started create_ok w) (take k events)))
          then Done (foldl (apply_event f32) (ensure_started create_ok w) (take k events), - 1, Some old)
          else Done ((foldl (apply_event f32) (ensure_started create_ok w) (take k events))
                       \<lparr>source := (source (foldl (apply_event f32) (ensure_started create_ok w) (take k events)))
                                    \<lparr>m_overflow_count := 0\<rparr>\<rparr>,
                     0,
                     Some (m_overflow_count
                       (source (foldl (apply_event f32) (ensure_started create_ok w) (take k events))))))) \<and>
    ((\<forall>j\<le>length events.
        fill_check (foldl (apply_event f32) (ensure_started create_ok w) (take j events)) n = Wait) \<longrightarrow>
       fill f32 create_ok events w n (Some old) = Blocked) \<and>
    (\<forall>w' r overruns'. fill f32 create_ok events w n (Some old) = Done (w', r, overruns') \<longrightarrow>
       (\<exists>k\<le>length events.
          cb (source w') = cb (source (foldl (apply_event f32) (ensure_started create_ok w) (take k events))))) \<and>
    (fill_check v n = Wait \<longleftrightarrow>
       \<not> g_kal_exit_req v \<and> streaming (source v) \<and>
       (\<exists>c. cb (source v) = Some c \<and> data_available c < n))"
proof (intro conjI allI impI)
  show "cb (source (ensure_started create_ok w)) = cb (source w)"
    by (rule ensure_started_cb)
next
  show "fill f32 create_ok events w n (Some old) \<noteq> Fault"
    by (rule fill_no_fault)
next
  fix k
  let ?w0 = "ensure_started create_ok w"
  let ?wk = "foldl (apply_event f32) ?w0 (take k events)"
  assume k: "k \<le> length events"
    and "(\<forall>j<k. fill_check (foldl (apply_event f32) ?w0 (take j events)) n = Wait) \<and>
       fill_check ?wk n \<noteq> Wait"
  then have waits: "\<forall>j<k. fill_check (foldl (apply_event f32) ?w0 (take j events)) n = Wait"
    and wake: "fill_check ?wk n \<noteq> Wait"
    by blast+
  from assms have c0: "cb (source ?w0) \<noteq> None"
    by (simp add: ensure_started_cb)
  from fill_loop_wakes [OF k waits wake c0]
  have loop: "fill_loop f32 ?w0 events n = Done (?wk, g_kal_exit_req ?wk)" .
  show "fill f32 create_ok events w n (Some old) =
         (if g_kal_exit_req ?wk \<or> \<not> streaming (source ?wk)
          then Done (?wk, - 1, Some old)
          else Done (?wk\<lparr>source := (source ?wk)\<lparr>m_overflow_count := 0\<rparr>\<rparr>, 0,
                     Some (m_overflow_count (source ?wk))))"
    using assms by (simp add: fill_def loop split: bool.splits)
next
  assume "\<forall>j\<le>length events.
        fill_check (foldl (apply_event f32) (ensure_started create_ok w) (take j events)) n = Wait"
  then have "fill_loop f32 (ensure_started create_ok w) events n = Blocked"
    by (rule fill_loop_blocked)
  with assms show "fill f32 create_ok events w n (Some old) = Blocked"
    by (simp add: fill_def)
next
  fix w' r overruns'
  let ?w0 = "ensure_started create_ok w"
  assume d: "fill f32 create_ok events w n (Some old) = Done (w', r, overruns')"
  with assms obtain w1 exit where loop: "fill_loop f32 ?w0 events n = Done (w1, exit)"
    by (cases "fill_loop f32 ?w0 events n") (auto simp: fill_def)
  from fill_loop_done [OF loop] obtain k where k: "k \<le> length events"
    "w1 = foldl (apply_event f32) ?w0 (take k events)"
    by blast
  from d loop assms have "cb (source w') = cb (source w1)"
    by (cases exit) (auto simp: fill_def split: if_splits)
  with k show "\<exists>k\<le>length events. cb (source w') = cb (source (foldl (apply_event f32) ?w0 (take k events)))"
    by blast
next
  show "fill_check v n = Wait \<longleftrightarrow>
       \<not> g_kal_exit_req v \<and> streaming (source v) \<and>
       (\<exists>c. cb (source v) = Some c \<and> data_available c < n)"
    by (rule fill_check_wait)
qed
theorem fill_returns_witness:
  "cb (source \<lparr>source = opened_source (\<lambda>r. r) :: real iio_source, g_kal_exit_req = False\<rparr>)
     = Some \<lparr>items = [], m_buf_len = 262144, m_overwrite = False\<rparr> \<and>
   fill (\<lambda>r. r) True [Exit_Signal]
       \<lparr>source = opened_source (\<lambda>r. r) :: real iio_source, g_kal_exit_req = False\<rparr> 1 (Some 0)
     = Done (\<lparr>source = opened_source (\<lambda>r. r), g_kal_exit_req = True\<rparr>, - 1, Some 0) \<and>
   fill (\<lambda>r. r) True [Stop_Request]
       \<lparr>source = opened_source (\<lambda>r. r) :: real iio_source, g_kal_exit_req = False\<rparr> 1 (Some 0)
     = Done (\<lparr>source = (opened_source (\<lambda>r. r))\<lparr>streaming := False\<rparr>, g_kal_exit_req = False\<rparr>, - 1, Some 0) \<and>
   fill (\<lambda>r. r) True [Worker_Pass (replicate 5 (0, 0)) (\<lambda>i. (0, 0)) True]
       \<lparr>source = opened_source (\<lambda>r. r) :: real iio_source, g_kal_exit_req = False\<rparr> 1 (Some 7)
     = Done (\<lparr>source = (worker_iteration (\<lambda>r. r) (opened_source (\<lambda>r. r)) (replicate 5 (0, 0)) (\<lambda>i. (0, 0)) True)
                         \<lparr>m_overflow_count := 0\<rparr>,
              g_kal_exit_req = False\<rparr>, 0,
             Some (m_overflow_count
               (worker_iteration (\<lambda>r. r) (opened_source (\<lambda>r. r)) (replicate 5 (0, 0)) (\<lambda>i. (0, 0)) True)))"
proof -
  let ?w = "\<lparr>source = opened_source (\<lambda>r. r) :: real iio_source, g_kal_exit_req = False\<rparr>"
  let ?pass = "Worker_Pass (replicate 5 (0, 0)) (\<lambda>i. (0, 0)) True :: real event"
  let ?s1 = "worker_iteration (\<lambda>r. r) (opened_source (\<lambda>r. r) :: real iio_source) (replicate 5 (0, 0)) (\<lambda>i. (0, 0)) True"
  have c: "cb (source ?w) = Some \<lparr>items = [], m_buf_len = 262144, m_overwrite = False\<rparr>"
    by (simp add: opened_source_fields)
  have started: "ensure_started True ?w = ?w"
    by (simp add: ensure_started_def opened_source_fields)
  have wait0: "fill_check ?w 1 = Wait"
    by (simp add: fill_check_def opened_source_fields data_available_def)
  have k: "(1::nat) \<le> length [ev]" for ev :: "real event" by simp
  have pre: "(\<forall>j<1. fill_check (foldl (apply_event (\<lambda>r. r)) (ensure_started True ?w) (take j [ev])) 1 = Wait)"
    for ev :: "real event"
    using wait0 by (simp add: started)
  have wake_exit: "fill_check (foldl (apply_event (\<lambda>r. r)) (ensure_started True ?w) (take 1 [Exit_Signal])) 1 \<noteq> Wait"
    by (simp add: started fill_check_def)
  have wake_stop: "fill_check (foldl (apply_event (\<lambda>r. r)) (ensure_started True ?w) (take 1 [Stop_Request])) 1 \<noteq> Wait"
    by (simp add: started fill_check_def opened_source_fields)
  from opened_worker_pass [of "\<lambda>r. r" "(0, 0)" "\<lambda>i. (0, 0)"]
  obtain b' where b': "cb ?s1 = Some b'" "data_available b' = 1" and str: "streaming ?s1"
    by blast
  have wake_pass: "fill_check (foldl (apply_event (\<lambda>r. r)) (ensure_started True ?w) (take 1 [?pass])) 1 \<noteq> Wait"
    by (simp add: started fill_check_def b')
  note t = fill_returns [where w = ?w and ?f32.0 = "\<lambda>r. r" and create_ok = True and n = 1, OF c,
      THEN conjunct2, THEN conjunct2, THEN conjunct1, rule_format]
  from t [where events = "[Exit_Signal]" and old = 0, OF k conjI [OF pre wake_exit]]
  have e: "fill (\<lambda>r. r) True [Exit_Signal] ?w 1 (Some 0)
     = Done (\<lparr>source = opened_source (\<lambda>r. r), g_kal_exit_req = True\<rparr>, - 1, Some 0)"
    by (simp add: started)
  from t [where events = "[Stop_Request]" and old = 0, OF k conjI [OF pre wake_stop]]
  have s: "fill (\<lambda>r. r) True [Stop_Request] ?w 1 (Some 0)
     = Done (\<lparr>source = (opened_source (\<lambda>r. r))\<lparr>streaming := False\<rparr>, g_kal_exit_req = False\<rparr>, - 1, Some 0)"
    by (simp add: started)
  from t [where events = "[?pass]" and old = 7, OF k conjI [OF pre wake_pass]] str
  have p: "fill (\<lambda>r. r) True [?pass] ?w 1 (Some 7)
     = Done (\<lparr>source = ?s1\<lparr>m_overflow_count := 0\<rparr>, g_kal_exit_req = False\<rparr>, 0,
             Some (m_overflow_count ?s1))"
    by (simp add: started)
  from c e s p show ?thesis by blast
qed


subsection \<open>C10: the batch limit of the worker\<close>

text \<open>
  Claim C10. In every pass of the worker loop the conversion loop converts the first
  \<open>min (length chunk) BATCH_SIZE\<close> samples of the refilled chunk, \<open>BATCH_SIZE = 32768\<close>. The
  input of \<open>process\<close> in this pass is exactly the list of these converted samples, scaled
  by \<open>1/2048\<close>, with the capacity \<open>BATCH_SIZE\<close>; its result is the resampler, the output and
  the count \<open>produced\<close> that the hand-over uses. The samples of the chunk beyond the first
  32768 have no effect on the pass: the object it leaves, \<open>m_overflow_count\<close> and the ring
  buffer included, is the one that the pass on the first 32768 samples leaves.
\<close>

theorem worker_batch_limit:
  "snd (convert_batch f32 scale chunk 0 (m_batch_buffer s)) = min (length chunk) BATCH_SIZE \<and>
   (length (m_batch_buffer s) = BATCH_SIZE \<longrightarrow>
      take (snd (convert_batch f32 scale chunk 0 (m_batch_buffer s)))
           (fst (convert_batch f32 scale chunk 0 (m_batch_buffer s)))
        = map (convert_sample f32 scale) (take BATCH_SIZE chunk) \<and>
      worker_dsp f32 s chunk out_buf =
        (case process (m_resampler s)
                (map (convert_sample f32 (f32 (1 / 2048))) (take BATCH_SIZE chunk)) out_buf BATCH_SIZE of
           (r, out, produced) \<Rightarrow>
             (s\<lparr>m_batch_buffer := fst (convert_batch f32 (f32 (1 / 2048)) chunk 0 (m_batch_buffer s)),
                m_resampler := r\<rparr>, out, produced)) \<and>
      worker_iteration f32 s chunk out_buf lock_ok =
        (case process (m_resampler s)
                (map (convert_sample f32 (f32 (1 / 2048))) (take BATCH_SIZE chunk)) out_buf BATCH_SIZE of
           (r, out, produced) \<Rightarrow>
             worker_handoff
               (s\<lparr>m_batch_buffer := fst (convert_batch f32 (f32 (1 / 2048)) chunk 0 (m_batch_buffer s)),
                  m_resampler := r\<rparr>) out produced lock_ok)) \<and>
   worker_iteration f32 s chunk out_buf lock_ok
     = worker_iteration f32 s (take BATCH_SIZE chunk) out_buf lock_ok"
  using convert_batch_count [of 0 f32 scale chunk "m_batch_buffer s"]
    convert_batch_result [of 0 "m_batch_buffer s" f32 scale chunk]
    worker_dsp_take [of f32 s chunk out_buf]
    worker_dsp_process [of s f32 chunk out_buf]
  by (simp add: worker_iteration_def split_beta)
theorem worker_batch_limit_witness:
  "length (m_batch_buffer (opened_source (\<lambda>r. r) :: real iio_source)) = BATCH_SIZE \<and>
   snd (convert_batch (\<lambda>r. r) (1 / 2048) (replicate 40000 (0, 0)) 0
          (m_batch_buffer (opened_source (\<lambda>r. r) :: real iio_source))) = 32768 \<and>
   take (snd (convert_batch (\<lambda>r. r) (1 / 2048) (replicate 40000 (0, 0)) 0
          (m_batch_buffer (opened_source (\<lambda>r. r) :: real iio_source))))
        (fst (convert_batch (\<lambda>r. r) (1 / 2048) (replicate 40000 (0, 0)) 0
          (m_batch_buffer (opened_source (\<lambda>r. r) :: real iio_source))))
     = map (convert_sample (\<lambda>r. r) (1 / 2048)) (take BATCH_SIZE (replicate 40000 (0, 0))) \<and>
   worker_dsp (\<lambda>r. r) (opened_source (\<lambda>r. r) :: real iio_source) (replicate 40000 (0, 0)) (\<lambda>i. (0, 0)) =
     (case process (m_resampler (opened_source (\<lambda>r. r)))
             (map (convert_sample (\<lambda>r. r) (1 / 2048)) (take BATCH_SIZE (replicate 40000 (0, 0))))
             (\<lambda>i. (0, 0)) BATCH_SIZE of
        (r, out, produced) \<Rightarrow>
          ((opened_source (\<lambda>r. r))
             \<lparr>m_batch_buffer := fst (convert_batch (\<lambda>r. r) (1 / 2048) (replicate 40000 (0, 0)) 0
                                     (m_batch_buffer (opened_source (\<lambda>r. r)))),
              m_resampler := r\<rparr>, out, produced))"
proof -
  have len: "length (m_batch_buffer (opened_source (\<lambda>r. r) :: real iio_source)) = BATCH_SIZE"
    by (rule opened_source_resampler)
  have m: "min (length (replicate 40000 (0::16 word, 0::16 word))) BATCH_SIZE = 32768"
    by (simp only: length_replicate BATCH_SIZE_def)
  from worker_batch_limit [where s = "opened_source (\<lambda>r. r) :: real iio_source" and ?f32.0 = "\<lambda>r. r"
      and scale = "1 / 2048" and chunk = "replicate 40000 (0, 0)" and out_buf = "\<lambda>i. (0, 0)"] len
  show ?thesis unfolding m by blast
qed


end
